theory Spec2Isabelle
  imports Complex_Main "HOL-Library.AList"
begin

section \<open>Data model (checkers/model/util.py)\<close>

text \<open>
  The two enumerations of the game. \<open>CheckersPlayer.next\<close> maps value \<open>v\<close> to the member with
  value \<open>(v + 1) mod 2\<close>, which swaps the two players.
\<close>

datatype CheckersPlayer = LIGHT | DARK

datatype CheckersPieceType = MAN | KING

fun next_player :: "CheckersPlayer \<Rightarrow> CheckersPlayer" where
  "next_player LIGHT = DARK"
| "next_player DARK = LIGHT"

text \<open>
  A piece is a frozen dataclass with the fields \<open>owner\<close> and \<open>type\<close>; the second selector is
  called \<open>ptype\<close> here.
\<close>

datatype CheckersPiece = CheckersPiece (owner: CheckersPlayer) (ptype: CheckersPieceType)

text \<open>
  \<open>Index2D\<close> stores a column index \<open>x\<close> and a row index \<open>y\<close>, both Python integers. The
  selectors are named \<open>x_of\<close> and \<open>y_of\<close> so that \<open>x\<close> and \<open>y\<close> stay free for variables.
  Equality is componentwise (\<open>__eq__\<close>), which is the equality of the datatype.
\<close>

datatype Index2D = Index2D (x_of: int) (y_of: int)

definition sign :: "int \<Rightarrow> int" where
  "sign v = (if v > 0 then 1 else if v < 0 then - 1 else 0)"

definition index_sign :: "Index2D \<Rightarrow> Index2D" where
  "index_sign a = Index2D (sign (x_of a)) (sign (y_of a))"

definition index_add :: "Index2D \<Rightarrow> Index2D \<Rightarrow> Index2D" where
  "index_add a b = Index2D (x_of a + x_of b) (y_of a + y_of b)"

definition index_sub :: "Index2D \<Rightarrow> Index2D \<Rightarrow> Index2D" where
  "index_sub a b = Index2D (x_of a - x_of b) (y_of a - y_of b)"

definition index_mul :: "Index2D \<Rightarrow> int \<Rightarrow> Index2D" where
  "index_mul a scalar = Index2D (x_of a * scalar) (y_of a * scalar)"

text \<open>
  A board has the two dimensions and \<open>_list_2d\<close>, a list of columns, each column a list of
  optional pieces: the cell of square \<open>(x, y)\<close> is \<open>_list_2d[x][y]\<close>. The constructor builds
  \<open>column_count\<close> columns of \<open>row_count\<close> empty cells and rejects dimensions that are not
  positive; no method changes the dimensions or the lengths of the lists. \<open>board_wf\<close> is this
  class invariant.
\<close>

record CheckersBoard =
  row_count :: int
  column_count :: int
  list_2d :: "CheckersPiece option list list"

definition board_wf :: "CheckersBoard \<Rightarrow> bool" where
  "board_wf b \<longleftrightarrow>
     0 < row_count b \<and> 0 < column_count b \<and>
     int (length (list_2d b)) = column_count b \<and>
     list_all (\<lambda>column. int (length column) = row_count b) (list_2d b)"

text \<open>
  \<open>__contains__\<close> is the bounds test on the stored dimensions. \<open>__getitem__\<close> and
  \<open>__setitem__\<close> index the nested lists. Every call of them in the functions modelled below is
  either guarded by the bounds test or uses a square produced by the board's own iterator, so on
  a board satisfying \<open>board_wf\<close> the indices are in range and non-negative, where Python's list
  indexing and \<open>!\<close> / list update agree.
\<close>

definition contains :: "CheckersBoard \<Rightarrow> Index2D \<Rightarrow> bool" where
  "contains b index \<longleftrightarrow>
     0 \<le> x_of index \<and> x_of index < column_count b \<and> 0 \<le> y_of index \<and> y_of index < row_count b"

definition getitem :: "CheckersBoard \<Rightarrow> Index2D \<Rightarrow> CheckersPiece option" where
  "getitem b index = list_2d b ! nat (x_of index) ! nat (y_of index)"

definition setitem :: "CheckersBoard \<Rightarrow> Index2D \<Rightarrow> CheckersPiece option \<Rightarrow> CheckersBoard" where
  "setitem b index piece =
     b\<lparr>list_2d := (list_2d b)[nat (x_of index) := (list_2d b ! nat (x_of index))[nat (y_of index) := piece]]\<rparr>"

text \<open>
  \<open>__iter__\<close> is a generator: it enumerates the columns and the cells of each column and yields
  the index and the piece of every occupied cell. \<open>board_squares\<close> is the sequence of indices it
  walks through. The generator reads each cell when it reaches it, so a loop over the board that
  also writes to the board sees its own writes; the loops below therefore read the current
  board at every square of \<open>board_squares\<close> and skip the empty ones. Writing a cell never
  changes the lengths of the lists, so the sequence of indices is fixed when the loop starts.
\<close>

definition board_squares :: "CheckersBoard \<Rightarrow> Index2D list" where
  "board_squares b =
     concat (map (\<lambda>(i, column). map (\<lambda>j. Index2D (int i) (int j)) [0..<length column])
                 (enumerate 0 (list_2d b)))"

text \<open>A jump is one hop of a capturing move; a move is the tuple of the squares it visits.\<close>

datatype CheckersJump = CheckersJump (destination: Index2D) (captured_square: Index2D)

datatype CheckersMove = CheckersMove (visited_squares: "Index2D list")

definition move_len :: "CheckersMove \<Rightarrow> nat" where
  "move_len move = length (visited_squares move)"

text \<open>
  A game result stores the winner (\<open>None\<close> for a draw) and the ply count at which the game
  ended. \<open>__post_init__\<close> raises \<open>ValueError\<close> unless the ply count is positive, so building a
  result can fail; \<open>make_result\<close> is the constructor call.

  The exceptions of the modelled code are the constructors of \<open>error\<close>. The first three are
  the \<open>ValueError\<close>s that the code raises with an explicit \<open>raise\<close>, told apart by their
  message: a move that is not legal, a total ply count that is not positive, a number of
  playouts that is not positive. The others are raised by the Python runtime: \<open>EmptySequence\<close>
  is the \<open>ValueError\<close> of \<open>max\<close> on an empty sequence, and \<open>IndexError\<close>, \<open>AttributeError\<close>
  and \<open>TypeError\<close> arise where the code indexes a list out of range, reads a field of
  \<open>None\<close> or unpacks \<open>None\<close>.
\<close>

datatype error =
    IllegalMove
  | NonPositivePlyCount
  | NonPositivePlayoutCount
  | EmptySequence
  | IndexError
  | AttributeError
  | TypeError

record CheckersGameResult =
  winner :: "CheckersPlayer option"
  total_ply_count :: int

definition make_result :: "CheckersPlayer option \<Rightarrow> int \<Rightarrow> error + CheckersGameResult" where
  "make_result w n =
     (if n \<le> 0 then Inl NonPositivePlyCount else Inr \<lparr>winner = w, total_ply_count = n\<rparr>)"

section \<open>Rules engine (checkers/model/rules.py)\<close>

text \<open>
  The \<open>match\<close> statements of the rules engine end in a case that raises \<open>ValueError\<close> for a
  value outside the enumeration. The datatypes have no such value, so these cases have no
  counterpart here.
\<close>

definition DIAGONAL_DIRECTIONS :: "Index2D list" where
  "DIAGONAL_DIRECTIONS = [Index2D (- 1) 1, Index2D 1 1, Index2D 1 (- 1), Index2D (- 1) (- 1)]"

definition LIGHT_PLAYER_FORWARD_DIRECTIONS :: "Index2D list" where
  "LIGHT_PLAYER_FORWARD_DIRECTIONS = [Index2D (- 1) 1, Index2D 1 1]"

definition DARK_PLAYER_FORWARD_DIRECTIONS :: "Index2D list" where
  "DARK_PLAYER_FORWARD_DIRECTIONS = [Index2D 1 (- 1), Index2D (- 1) (- 1)]"

definition get_forward_directions :: "CheckersPlayer \<Rightarrow> Index2D list" where
  "get_forward_directions player =
     (case player of LIGHT \<Rightarrow> LIGHT_PLAYER_FORWARD_DIRECTIONS | DARK \<Rightarrow> DARK_PLAYER_FORWARD_DIRECTIONS)"

definition get_kings_row_index :: "CheckersPlayer \<Rightarrow> CheckersBoard \<Rightarrow> int" where
  "get_kings_row_index player b = (case player of LIGHT \<Rightarrow> row_count b - 1 | DARK \<Rightarrow> 0)"

subsection \<open>Loops\<close>

text \<open>
  The \<open>while\<close> loops of the rules engine walk along a direction until they leave the board; with
  a zero direction they would not stop. They are modelled as partial functions into \<open>option\<close>,
  where \<open>None\<close> stands for a loop that does not return, and every function that runs such a
  loop returns an \<open>option\<close> as well. \<open>for_each\<close> is a \<open>for\<close> loop over a list whose body may
  not return: it threads the loop state through the body for each element in turn.
\<close>

fun for_each :: "('a \<Rightarrow> 's \<Rightarrow> 's option) \<Rightarrow> 'a list \<Rightarrow> 's \<Rightarrow> 's option" where
  "for_each body [] s = Some s"
| "for_each body (x # xs) s = (case body x s of None \<Rightarrow> None | Some s' \<Rightarrow> for_each body xs s')"

lemma for_each_cong [fundef_cong]:
  "xs = ys \<Longrightarrow> s = t \<Longrightarrow> (\<And>x r. x \<in> set ys \<Longrightarrow> f x r = g x r) \<Longrightarrow> for_each f xs s = for_each g ys t"
proof (induction ys arbitrary: xs s t)
  case Nil
  then show ?case by simp
next
  case (Cons y ys)
  then show ?case by (auto split: option.splits)
qed

lemma for_each_invariant:
  assumes "for_each body xs s = Some t" and "P s"
    and "\<And>x r r'. x \<in> set xs \<Longrightarrow> P r \<Longrightarrow> body x r = Some r' \<Longrightarrow> P r'"
  shows "P t"
  using assms
proof (induction xs arbitrary: s)
  case Nil
  then show ?case by simp
next
  case (Cons x xs)
  from Cons.prems(1) obtain s' where s': "body x s = Some s'" "for_each body xs s' = Some t"
    by (auto split: option.splits)
  have "P s'" using Cons.prems(2,3) s'(1) by auto
  then show ?case using Cons.IH [OF s'(2)] Cons.prems(3) by auto
qed

lemma for_each_total:
  assumes "\<And>x r. x \<in> set xs \<Longrightarrow> \<exists>r'. body x r = Some r'"
  shows "\<exists>t. for_each body xs s = Some t"
  using assms
proof (induction xs arbitrary: s)
  case Nil
  then show ?case by simp
next
  case (Cons x xs)
  from Cons.prems [of x s] obtain s' where "body x s = Some s'" by auto
  moreover from Cons.IH [of s'] Cons.prems obtain t where "for_each body xs s' = Some t" by auto
  ultimately show ?case by simp
qed

lemma fold_invariant:
  assumes "P s" and "\<And>x r. x \<in> set xs \<Longrightarrow> P r \<Longrightarrow> P (f x r)"
  shows "P (fold f xs s)"
  using assms by (induction xs arbitrary: s) auto

subsection \<open>Single jumps: \<open>add_legal_jumps\<close>\<close>

text \<open>
  The body of the loop over the four directions for a man: the adjacent square must be on the
  board and hold a piece of the other player, the square behind it must be on the board and
  empty, and the adjacent square must not have been captured already. Each \<open>continue\<close> of the
  source returns the list of jumps unchanged.
\<close>

definition man_jump ::
  "CheckersPiece \<Rightarrow> Index2D \<Rightarrow> Index2D list \<Rightarrow> CheckersBoard \<Rightarrow> Index2D \<Rightarrow> CheckersJump list \<Rightarrow> CheckersJump list" where
  "man_jump piece origin captured_squares b delta jumps =
     (let captured_sq = index_add origin delta in
      if \<not> contains b captured_sq then jumps
      else case getitem b captured_sq of
        None \<Rightarrow> jumps
      | Some captured_piece \<Rightarrow>
          if owner captured_piece = owner piece then jumps
          else let dest = index_add captured_sq delta in
            if \<not> contains b dest \<or> getitem b dest \<noteq> None then jumps
            else if captured_sq \<in> set captured_squares then jumps
            else jumps @ [CheckersJump dest captured_sq])"

text \<open>
  For a king, the first \<open>while\<close> loop looks for the nearest piece in the direction; it sets
  \<open>captured_piece_owner\<close> and \<open>captured_square\<close> together, so its result is one optional pair.
  The second \<open>while\<close> loop adds a jump for every empty square behind the captured piece until
  the path is blocked or leaves the board.
\<close>

partial_function (option) nearest_piece ::
  "CheckersBoard \<Rightarrow> Index2D \<Rightarrow> Index2D \<Rightarrow> (CheckersPlayer \<times> Index2D) option option" where
  "nearest_piece b delta square =
     (if contains b square then
        (case getitem b square of
           Some captured_piece \<Rightarrow> Some (Some (owner captured_piece, square))
         | None \<Rightarrow> nearest_piece b delta (index_add square delta))
      else Some None)"

declare nearest_piece.simps [code]

partial_function (option) landing_squares ::
  "CheckersBoard \<Rightarrow> Index2D \<Rightarrow> Index2D \<Rightarrow> Index2D \<Rightarrow> CheckersJump list \<Rightarrow> CheckersJump list option" where
  "landing_squares b delta captured_sq dest jumps =
     (if contains b dest then
        (if getitem b dest \<noteq> None then Some jumps
         else landing_squares b delta captured_sq (index_add dest delta)
                (jumps @ [CheckersJump dest captured_sq]))
      else Some jumps)"

declare landing_squares.simps [code]

definition king_jump ::
  "CheckersPiece \<Rightarrow> Index2D \<Rightarrow> Index2D list \<Rightarrow> CheckersBoard \<Rightarrow> Index2D \<Rightarrow> CheckersJump list \<Rightarrow> CheckersJump list option" where
  "king_jump piece origin captured_squares b delta jumps =
     (case nearest_piece b delta (index_add origin delta) of
        None \<Rightarrow> None
      | Some None \<Rightarrow> Some jumps
      | Some (Some (captured_piece_owner, captured_sq)) \<Rightarrow>
          if captured_piece_owner = owner piece then Some jumps
          else if captured_sq \<in> set captured_squares then Some jumps
          else landing_squares b delta captured_sq (index_add captured_sq delta) jumps)"

definition add_legal_jumps ::
  "CheckersPiece \<Rightarrow> Index2D \<Rightarrow> Index2D list \<Rightarrow> CheckersBoard \<Rightarrow> CheckersJump list \<Rightarrow> CheckersJump list option" where
  "add_legal_jumps piece origin captured_squares b jumps =
     (case ptype piece of
        MAN \<Rightarrow> Some (fold (man_jump piece origin captured_squares b) DIAGONAL_DIRECTIONS jumps)
      | KING \<Rightarrow> for_each (king_jump piece origin captured_squares b) DIAGONAL_DIRECTIONS jumps)"

text \<open>
  A square is capturable for a piece when it is on the board, has not been captured in the
  current chain and holds a piece of the other player. \<open>capturable_count\<close> counts these squares;
  with no square captured yet it is the number of the opponent's pieces on the board.
\<close>

definition all_squares :: "CheckersBoard \<Rightarrow> Index2D list" where
  "all_squares b = concat (map (\<lambda>i. map (\<lambda>j. Index2D i j) [0..row_count b - 1]) [0..column_count b - 1])"

definition capturable :: "CheckersPiece \<Rightarrow> Index2D list \<Rightarrow> CheckersBoard \<Rightarrow> Index2D \<Rightarrow> bool" where
  "capturable piece captured_squares b sq \<longleftrightarrow>
     contains b sq \<and> sq \<notin> set captured_squares \<and>
     (case getitem b sq of None \<Rightarrow> False | Some p \<Rightarrow> owner p \<noteq> owner piece)"

definition capturable_count :: "CheckersPiece \<Rightarrow> Index2D list \<Rightarrow> CheckersBoard \<Rightarrow> nat" where
  "capturable_count piece captured_squares b =
     length (filter (capturable piece captured_squares b) (all_squares b))"

lemma set_all_squares: "sq \<in> set (all_squares b) \<longleftrightarrow> contains b sq"
  by (cases sq) (auto simp: all_squares_def contains_def image_iff)

lemma man_jump_capturable:
  "\<forall>j \<in> set jumps. capturable piece cs b (captured_square j) \<Longrightarrow>
   \<forall>j \<in> set (man_jump piece origin cs b delta jumps). capturable piece cs b (captured_square j)"
  by (auto simp: man_jump_def Let_def capturable_def split: option.splits)

lemma nearest_piece_found:
  assumes "nearest_piece b delta square = Some (Some (ow, sq))"
  shows "contains b sq \<and> (\<exists>p. getitem b sq = Some p \<and> owner p = ow)"
proof -
  have "\<forall>ow' sq'. Some (ow, sq) = Some (ow', sq') \<longrightarrow>
          contains b sq' \<and> (\<exists>p. getitem b sq' = Some p \<and> owner p = ow')"
    by (rule nearest_piece.raw_induct
          [where P = "\<lambda>b delta square r. \<forall>ow sq. r = Some (ow, sq) \<longrightarrow>
             contains b sq \<and> (\<exists>p. getitem b sq = Some p \<and> owner p = ow)", OF _ assms])
       (auto split: if_splits option.splits)
  then show ?thesis by simp
qed

lemma landing_squares_captured:
  assumes "landing_squares b delta captured_sq dest jumps = Some js"
  shows "\<forall>j \<in> set js. j \<in> set jumps \<or> captured_square j = captured_sq"
  by (rule landing_squares.raw_induct
        [where P = "\<lambda>b delta captured_sq dest jumps js.
           \<forall>j \<in> set js. j \<in> set jumps \<or> captured_square j = captured_sq", OF _ assms])
     (fastforce split: if_splits)

lemma king_jump_capturable:
  assumes "king_jump piece origin cs b delta jumps = Some js"
    and "\<forall>j \<in> set jumps. capturable piece cs b (captured_square j)"
  shows "\<forall>j \<in> set js. capturable piece cs b (captured_square j)"
proof
  fix j assume j: "j \<in> set js"
  show "capturable piece cs b (captured_square j)"
  proof (cases "nearest_piece b delta (index_add origin delta)")
    case None
    with assms(1) show ?thesis by (simp add: king_jump_def)
  next
    case (Some r)
    note scan = this
    show ?thesis
    proof (cases r)
      case None
      with scan assms j show ?thesis by (simp add: king_jump_def)
    next
      case (Some a)
      obtain ow sq where a: "a = (ow, sq)" by (cases a)
      from nearest_piece_found [of b delta "index_add origin delta" ow sq] scan Some a
      have found: "contains b sq" "\<exists>p. getitem b sq = Some p \<and> owner p = ow" by auto
      show ?thesis
      proof (cases "ow = owner piece \<or> sq \<in> set cs")
        case True
        with scan Some a assms j
        show ?thesis by (auto simp: king_jump_def split: if_splits)
      next
        case False
        with scan Some a assms(1)
        have "landing_squares b delta sq (index_add sq delta) jumps = Some js"
          by (simp add: king_jump_def)
        from landing_squares_captured [OF this] j
        show ?thesis
          using assms(2) False found by (auto simp: capturable_def)
      qed
    qed
  qed
qed

lemma add_legal_jumps_capturable:
  assumes "add_legal_jumps piece origin cs b jumps = Some js"
    and "\<forall>j \<in> set jumps. capturable piece cs b (captured_square j)"
  shows "\<forall>j \<in> set js. capturable piece cs b (captured_square j)"
proof (cases "ptype piece")
  case MAN
  with assms(1) have js: "js = fold (man_jump piece origin cs b) DIAGONAL_DIRECTIONS jumps"
    by (simp add: add_legal_jumps_def)
  show ?thesis unfolding js
    by (rule fold_invariant [where P = "\<lambda>js. \<forall>j \<in> set js. capturable piece cs b (captured_square j)"])
       (use assms(2) man_jump_capturable in blast)+
next
  case KING
  with assms(1) have "for_each (king_jump piece origin cs b) DIAGONAL_DIRECTIONS jumps = Some js"
    by (simp add: add_legal_jumps_def)
  then show ?thesis
    by (rule for_each_invariant [where P = "\<lambda>js. \<forall>j \<in> set js. capturable piece cs b (captured_square j)"])
       (use assms(2) king_jump_capturable in blast)+
qed

lemma capturable_count_decreases:
  assumes "capturable piece cs b sq"
  shows "capturable_count piece (cs @ [sq]) b < capturable_count piece cs b"
proof -
  have sub: "filter (capturable piece (cs @ [sq]) b) (all_squares b)
             = filter (\<lambda>s. s \<noteq> sq) (filter (capturable piece cs b) (all_squares b))"
    by (auto simp: capturable_def intro!: filter_cong)
  have mem: "sq \<in> set (filter (capturable piece cs b) (all_squares b))"
    using assms by (simp add: set_all_squares capturable_def)
  show ?thesis
    unfolding capturable_count_def sub
    by (rule length_filter_less [OF mem]) simp
qed

subsection \<open>Capture chains: \<open>add_legal_capturing_moves\<close>\<close>

text \<open>
  The recursive search appends the destination and the captured square of a jump to the two
  shared lists, calls itself and pops both again, so each call sees the lists of its caller
  extended by one element and leaves them as it found them; the model passes the extended lists
  as arguments. The list of moves is only appended to and is threaded through the calls. The
  board is read and never written (no assignment to a cell in lines 99--197), so it is an
  argument only. \<open>visited_squares[-1]\<close> is \<open>last visited\<close>; the function's docstring requires the
  list to be non-empty.

  The recursion terminates because every jump captures a square that is capturable, so the
  number of capturable squares decreases with every call.
\<close>

function add_legal_capturing_moves ::
  "CheckersPiece \<Rightarrow> Index2D list \<Rightarrow> Index2D list \<Rightarrow> CheckersBoard \<Rightarrow> CheckersMove list \<Rightarrow> CheckersMove list option" where
  "add_legal_capturing_moves piece visited captured b moves =
     (case add_legal_jumps piece (last visited) captured b [] of
        None \<Rightarrow> None
      | Some jumps \<Rightarrow>
          if jumps = [] then
            Some (if length visited \<ge> 2 then moves @ [CheckersMove visited] else moves)
          else
            for_each (\<lambda>jump ms.
                add_legal_capturing_moves piece (visited @ [destination jump])
                  (captured @ [captured_square jump]) b ms)
              jumps moves)"
  by pat_completeness auto
termination
proof (relation "measure (\<lambda>(piece, visited, captured, b, moves). capturable_count piece captured b)")
  show "wf (measure (\<lambda>(piece, visited, captured, b, moves). capturable_count piece captured b))"
    by simp
next
  fix piece :: CheckersPiece and visited captured :: "Index2D list" and b :: CheckersBoard
    and moves r :: "CheckersMove list" and jumps :: "CheckersJump list" and jump :: CheckersJump
  assume "add_legal_jumps piece (last visited) captured b [] = Some jumps" and "jump \<in> set jumps"
  then have "capturable piece captured b (captured_square jump)"
    using add_legal_jumps_capturable [of piece "last visited" captured b "[]" jumps] by simp
  then show "((piece, visited @ [destination jump], captured @ [captured_square jump], b, r),
              (piece, visited, captured, b, moves))
             \<in> measure (\<lambda>(piece, visited, captured, b, moves). capturable_count piece captured b)"
    by (simp add: capturable_count_decreases)
qed

declare add_legal_capturing_moves.simps [simp del]

subsection \<open>Non-capturing moves: \<open>add_legal_non_capturing_moves\<close>\<close>

definition man_step :: "Index2D \<Rightarrow> CheckersBoard \<Rightarrow> Index2D \<Rightarrow> CheckersMove list \<Rightarrow> CheckersMove list" where
  "man_step origin b delta moves =
     (let dest = index_add origin delta in
      if contains b dest \<and> getitem b dest = None
      then moves @ [CheckersMove [origin, dest]] else moves)"

partial_function (option) king_slide ::
  "CheckersBoard \<Rightarrow> Index2D \<Rightarrow> Index2D \<Rightarrow> Index2D \<Rightarrow> CheckersMove list \<Rightarrow> CheckersMove list option" where
  "king_slide b delta origin dest moves =
     (if contains b dest then
        (if getitem b dest \<noteq> None then Some moves
         else king_slide b delta origin (index_add dest delta) (moves @ [CheckersMove [origin, dest]]))
      else Some moves)"

declare king_slide.simps [code]

definition add_legal_non_capturing_moves ::
  "CheckersPieceType \<Rightarrow> Index2D list \<Rightarrow> Index2D \<Rightarrow> CheckersBoard \<Rightarrow> CheckersMove list \<Rightarrow> CheckersMove list option" where
  "add_legal_non_capturing_moves piece_type forward_directions origin b moves =
     (case piece_type of
        MAN \<Rightarrow> Some (fold (man_step origin b) forward_directions moves)
      | KING \<Rightarrow> for_each (\<lambda>delta. king_slide b delta origin (index_add origin delta)) DIAGONAL_DIRECTIONS moves)"

subsection \<open>Legal moves: \<open>determine_legal_moves\<close>\<close>

text \<open>
  The body of the first loop: for a piece of the current player, take the piece off its square,
  gather its capturing moves with \<open>visited_squares = [square]\<close> and no captured square, and put
  the piece back. The loop state is the board and the list of moves. Cells that are empty when
  the iterator reaches them are not yielded.
\<close>

definition capture_step ::
  "CheckersPlayer \<Rightarrow> Index2D \<Rightarrow> CheckersBoard \<times> CheckersMove list \<Rightarrow> (CheckersBoard \<times> CheckersMove list) option" where
  "capture_step current_player square state =
     (case state of (b, moves) \<Rightarrow>
        (case getitem b square of
           None \<Rightarrow> Some (b, moves)
         | Some piece \<Rightarrow>
             if owner piece \<noteq> current_player then Some (b, moves)
             else
               (let b1 = setitem b square None in
                case add_legal_capturing_moves piece [square] [] b1 moves of
                  None \<Rightarrow> None
                | Some moves1 \<Rightarrow> Some (setitem b1 square (Some piece), moves1))))"

definition gather_capturing_moves ::
  "CheckersPlayer \<Rightarrow> CheckersBoard \<Rightarrow> (CheckersBoard \<times> CheckersMove list) option" where
  "gather_capturing_moves current_player b =
     for_each (capture_step current_player) (board_squares b) (b, [])"

text \<open>The body of the second loop, which does not write to the board.\<close>

definition non_capture_step ::
  "CheckersPlayer \<Rightarrow> Index2D list \<Rightarrow> CheckersBoard \<Rightarrow> Index2D \<Rightarrow> CheckersMove list \<Rightarrow> CheckersMove list option" where
  "non_capture_step current_player forward_directions b square moves =
     (case getitem b square of
        None \<Rightarrow> Some moves
      | Some piece \<Rightarrow>
          if owner piece \<noteq> current_player then Some moves
          else add_legal_non_capturing_moves (ptype piece) forward_directions square b moves)"

definition gather_non_capturing_moves ::
  "CheckersPlayer \<Rightarrow> CheckersBoard \<Rightarrow> CheckersMove list \<Rightarrow> CheckersMove list option" where
  "gather_non_capturing_moves current_player b moves =
     for_each (non_capture_step current_player (get_forward_directions current_player) b)
       (board_squares b) moves"

text \<open>
  \<open>determine_legal_moves\<close> returns the list of legal moves; the model returns the board as the
  call leaves it as well, since the function writes to the board it was passed.
\<close>

definition determine_legal_moves ::
  "CheckersPlayer \<Rightarrow> CheckersBoard \<Rightarrow> (CheckersMove list \<times> CheckersBoard) option" where
  "determine_legal_moves current_player b =
     (case gather_capturing_moves current_player b of
        None \<Rightarrow> None
      | Some (b1, moves) \<Rightarrow>
          if moves \<noteq> [] then
            (let max_move_length = Max (set (map move_len moves))
             in Some (filter (\<lambda>move. move_len move = max_move_length) moves, b1))
          else
            (case gather_non_capturing_moves current_player b1 moves of
               None \<Rightarrow> None
             | Some moves1 \<Rightarrow> Some (moves1, b1)))"

subsection \<open>Game result: \<open>determine_result\<close>\<close>

text \<open>
  The census loop runs over the occupied cells of the board and keeps four counters. The winner
  of a game without legal moves is chosen by a \<open>match\<close> on the current player. Both results
  are built by the constructor of \<open>CheckersGameResult\<close>, whose validation can raise.
\<close>

definition census_step ::
  "CheckersBoard \<Rightarrow> Index2D \<Rightarrow> nat \<times> nat \<times> nat \<times> nat \<Rightarrow> nat \<times> nat \<times> nat \<times> nat" where
  "census_step b square counts =
     (case counts of (light_man_count, dark_man_count, light_king_count, dark_king_count) \<Rightarrow>
        (case getitem b square of
           None \<Rightarrow> counts
         | Some piece \<Rightarrow>
             (case owner piece of
                LIGHT \<Rightarrow>
                  (case ptype piece of
                     MAN \<Rightarrow> (light_man_count + 1, dark_man_count, light_king_count, dark_king_count)
                   | KING \<Rightarrow> (light_man_count, dark_man_count, light_king_count + 1, dark_king_count))
              | DARK \<Rightarrow>
                  (case ptype piece of
                     MAN \<Rightarrow> (light_man_count, dark_man_count + 1, light_king_count, dark_king_count)
                   | KING \<Rightarrow> (light_man_count, dark_man_count, light_king_count, dark_king_count + 1)))))"

definition determine_result ::
  "CheckersBoard \<Rightarrow> CheckersPlayer \<Rightarrow> int \<Rightarrow> int \<Rightarrow> error + CheckersGameResult option" where
  "determine_result b current_player ply_count legal_move_count =
     (if legal_move_count \<le> 0 then
        (case make_result (Some (case current_player of LIGHT \<Rightarrow> DARK | DARK \<Rightarrow> LIGHT)) ply_count of
           Inl e \<Rightarrow> Inl e
         | Inr result \<Rightarrow> Inr (Some result))
      else
        (case fold (census_step b) (board_squares b) (0, 0, 0, 0) of
           (light_man_count, dark_man_count, light_king_count, dark_king_count) \<Rightarrow>
             if light_man_count = 0 \<and> dark_man_count = 0 \<and> light_king_count = 1 \<and> dark_king_count = 1
             then (case make_result None ply_count of
                     Inl e \<Rightarrow> Inl e
                   | Inr result \<Rightarrow> Inr (Some result))
             else Inr None))"

subsection \<open>Applying a move: \<open>apply\<close> and \<open>remove_pieces_between\<close>\<close>

text \<open>
  \<open>apply\<close> assumes a legal move and accesses the board without a bounds test, so here the
  accesses are modelled as Python performs them: an index from \<open>-n\<close> to \<open>n - 1\<close> of a list
  of length \<open>n\<close> is accepted, a negative one counting from the end, and any other index raises
  \<open>IndexError\<close>. On a well-formed board and a square within its bounds the checked accesses
  are \<open>getitem\<close> and \<open>setitem\<close>.
\<close>

definition list_get :: "'a list \<Rightarrow> int \<Rightarrow> error + 'a" where
  "list_get xs i =
     (let n = int (length xs) in
      if 0 \<le> i \<and> i < n then Inr (xs ! nat i)
      else if - n \<le> i \<and> i < 0 then Inr (xs ! nat (n + i))
      else Inl IndexError)"

definition list_set :: "'a list \<Rightarrow> int \<Rightarrow> 'a \<Rightarrow> error + 'a list" where
  "list_set xs i v =
     (let n = int (length xs) in
      if 0 \<le> i \<and> i < n then Inr (xs[nat i := v])
      else if - n \<le> i \<and> i < 0 then Inr (xs[nat (n + i) := v])
      else Inl IndexError)"

definition getitem_checked :: "CheckersBoard \<Rightarrow> Index2D \<Rightarrow> error + CheckersPiece option" where
  "getitem_checked b index =
     (case list_get (list_2d b) (x_of index) of
        Inl e \<Rightarrow> Inl e
      | Inr column \<Rightarrow> list_get column (y_of index))"

definition setitem_checked :: "CheckersBoard \<Rightarrow> Index2D \<Rightarrow> CheckersPiece option \<Rightarrow> error + CheckersBoard" where
  "setitem_checked b index piece =
     (case list_get (list_2d b) (x_of index) of
        Inl e \<Rightarrow> Inl e
      | Inr column \<Rightarrow>
          (case list_set column (y_of index) piece of
             Inl e \<Rightarrow> Inl e
           | Inr column1 \<Rightarrow>
               (case list_set (list_2d b) (x_of index) column1 of
                  Inl e \<Rightarrow> Inl e
                | Inr columns \<Rightarrow> Inr (b\<lparr>list_2d := columns\<rparr>))))"

lemma getitem_checked_in_bounds:
  "board_wf b \<Longrightarrow> contains b index \<Longrightarrow> getitem_checked b index = Inr (getitem b index)"
  by (auto simp: board_wf_def contains_def getitem_checked_def getitem_def list_get_def
        list_all_length Let_def)

lemma setitem_checked_in_bounds:
  "board_wf b \<Longrightarrow> contains b index \<Longrightarrow> setitem_checked b index piece = Inr (setitem b index piece)"
  by (auto simp: board_wf_def contains_def setitem_checked_def setitem_def list_get_def list_set_def
        list_all_length Let_def)

text \<open>
  The loop of \<open>remove_pieces_between\<close> empties the squares from the start square towards the
  end square until it reaches the end square (or an access fails). A failure returns the
  exception together with the board as it is at that moment, since the board is changed in
  place. \<open>apply\<close> is called \<open>apply_move\<close> here; it picks the piece up, crowns it, removes the
  pieces between consecutive visited squares and puts the piece down. The first visited square
  of an empty move does not exist (\<open>IndexError\<close>), and the owner of an empty origin cell cannot
  be read (\<open>AttributeError\<close>).
\<close>

partial_function (option) remove_loop ::
  "Index2D \<Rightarrow> Index2D \<Rightarrow> Index2D \<Rightarrow> CheckersBoard \<Rightarrow> (error \<times> CheckersBoard + CheckersBoard) option" where
  "remove_loop delta end_square square b =
     (if square \<noteq> end_square then
        (case setitem_checked b square None of
           Inl e \<Rightarrow> Some (Inl (e, b))
         | Inr b1 \<Rightarrow> remove_loop delta end_square (index_add square delta) b1)
      else Some (Inr b))"

declare remove_loop.simps [code]

definition remove_pieces_between ::
  "Index2D \<Rightarrow> Index2D \<Rightarrow> CheckersBoard \<Rightarrow> (error \<times> CheckersBoard + CheckersBoard) option" where
  "remove_pieces_between start_square end_square b =
     (let delta = index_sign (index_sub end_square start_square)
      in remove_loop delta end_square (index_add start_square delta) b)"

fun remove_captured ::
  "(Index2D \<times> Index2D) list \<Rightarrow> CheckersBoard \<Rightarrow> (error \<times> CheckersBoard + CheckersBoard) option" where
  "remove_captured [] b = Some (Inr b)"
| "remove_captured ((previous_square, square) # pairs) b =
     (case remove_pieces_between previous_square square b of
        None \<Rightarrow> None
      | Some (Inl failure) \<Rightarrow> Some (Inl failure)
      | Some (Inr b1) \<Rightarrow> remove_captured pairs b1)"

definition apply_move :: "CheckersMove \<Rightarrow> CheckersBoard \<Rightarrow> (error \<times> CheckersBoard + CheckersBoard) option" where
  "apply_move move b =
     (case visited_squares move of
        [] \<Rightarrow> Some (Inl (IndexError, b))
      | origin # rest \<Rightarrow>
          (let dest = last (visited_squares move) in
           case getitem_checked b origin of
             Inl e \<Rightarrow> Some (Inl (e, b))
           | Inr cell \<Rightarrow>
               (case setitem_checked b origin None of
                  Inl e \<Rightarrow> Some (Inl (e, b))
                | Inr b1 \<Rightarrow>
                    (case cell of
                       None \<Rightarrow> Some (Inl (AttributeError, b1))
                     | Some picked_up \<Rightarrow>
                         (let moving_piece =
                                (if y_of dest = get_kings_row_index (owner picked_up) b1 \<and> ptype picked_up = MAN
                                 then CheckersPiece (owner picked_up) KING else picked_up)
                          in case remove_captured (zip (butlast (visited_squares move)) (tl (visited_squares move))) b1 of
                               None \<Rightarrow> None
                             | Some (Inl failure) \<Rightarrow> Some (Inl failure)
                             | Some (Inr b2) \<Rightarrow>
                                 (case setitem_checked b2 dest (Some moving_piece) of
                                    Inl e \<Rightarrow> Some (Inl (e, b2))
                                  | Inr b3 \<Rightarrow> Some (Inr b3)))))))"

section \<open>Game state (checkers/model/state.py)\<close>

text \<open>
  The state owns the board, the current player, the ply count and the cache of legal moves
  (\<open>None\<close> when it is not filled). The property \<open>legal_moves\<close> fills the cache on first use,
  so reading it changes the state: it returns the moves and the state after the call.
  \<open>CheckersState.apply\<close> is \<open>state_apply\<close>: it raises the illegal-move \<open>ValueError\<close> when the
  move is not among the legal moves, and otherwise applies the move to the board, passes the
  turn on, increments the ply count and clears the cache. An exception is returned together
  with the state as the call leaves it. The property \<open>result\<close> is \<open>state_result\<close>.
\<close>

record CheckersState =
  st_board :: CheckersBoard
  st_current_player :: CheckersPlayer
  st_ply_count :: int
  st_cached_legal_moves :: "CheckersMove list option"

definition legal_moves :: "CheckersState \<Rightarrow> (CheckersMove list \<times> CheckersState) option" where
  "legal_moves s =
     (case st_cached_legal_moves s of
        Some moves \<Rightarrow> Some (moves, s)
      | None \<Rightarrow>
          (case determine_legal_moves (st_current_player s) (st_board s) of
             None \<Rightarrow> None
           | Some (moves, b1) \<Rightarrow> Some (moves, s\<lparr>st_board := b1, st_cached_legal_moves := Some moves\<rparr>)))"

definition state_apply :: "CheckersState \<Rightarrow> CheckersMove \<Rightarrow> (error \<times> CheckersState + CheckersState) option" where
  "state_apply s move =
     (case legal_moves s of
        None \<Rightarrow> None
      | Some (moves, s1) \<Rightarrow>
          if move \<notin> set moves then Some (Inl (IllegalMove, s1))
          else
            (case apply_move move (st_board s1) of
               None \<Rightarrow> None
             | Some (Inl (e, b1)) \<Rightarrow> Some (Inl (e, s1\<lparr>st_board := b1\<rparr>))
             | Some (Inr b1) \<Rightarrow>
                 Some (Inr (s1\<lparr>st_board := b1,
                              st_current_player := next_player (st_current_player s1),
                              st_ply_count := st_ply_count s1 + 1,
                              st_cached_legal_moves := None\<rparr>))))"

definition state_result :: "CheckersState \<Rightarrow> ((error + CheckersGameResult option) \<times> CheckersState) option" where
  "state_result s =
     (case legal_moves s of
        None \<Rightarrow> None
      | Some (moves, s1) \<Rightarrow>
          Some (determine_result (st_board s1) (st_current_player s1) (st_ply_count s1) (int (length moves)), s1))"


section \<open>Monte-Carlo solver (checkers/ai/solver.py)\<close>

definition MAX_RECURSION_DEPTH :: int where
  "MAX_RECURSION_DEPTH = 200"

text \<open>
  The solver reads two things from outside: the cancellation event, which another thread may set
  at any moment, and the random number generator. Both are part of an environment that is
  threaded through the solver. \<open>cancel_schedule\<close> gives the answer of each call of
  \<open>is_set\<close> in the order of the calls, and \<open>random_source\<close> gives the raw value of each random
  draw; \<open>polls\<close> and \<open>draws\<close> count the calls made so far. \<open>random.choice\<close> raises
  \<open>IndexError\<close> on an empty sequence. An environment that comes back unchanged shows that
  neither the event was polled nor a random choice was made.
\<close>

record environment =
  cancel_schedule :: "nat \<Rightarrow> bool"
  polls :: nat
  random_source :: "nat \<Rightarrow> nat"
  draws :: nat

definition is_set :: "environment \<Rightarrow> bool \<times> environment" where
  "is_set env = (cancel_schedule env (polls env), env\<lparr>polls := polls env + 1\<rparr>)"

definition random_choice :: "environment \<Rightarrow> 'a list \<Rightarrow> error + 'a \<times> environment" where
  "random_choice env xs =
     (if xs = [] then Inl IndexError
      else Inr (xs ! (random_source env (draws env) mod length xs), env\<lparr>draws := draws env + 1\<rparr>))"

text \<open>
  The scores are Python floats. They are modelled as real numbers and the decimal literals as
  the decimal fractions they denote; the rounding of binary floating point is not modelled.
\<close>

definition determine_score :: "CheckersGameResult option \<Rightarrow> CheckersPlayer \<Rightarrow> real" where
  "determine_score result player =
     (case result of
        None \<Rightarrow> 0.5
      | Some r \<Rightarrow>
          (let game_duration_score = min (0.001 * of_int (total_ply_count r)) 0.2 in
           if winner r = None then 0.5 + game_duration_score
           else if winner r = Some player then 1 - game_duration_score
           else 0 + game_duration_score))"

text \<open>
  The score that a player gets for a game of \<open>n\<close> plies that the player won, lost (the other
  player won) or drew.
\<close>

definition win_score :: "CheckersPlayer \<Rightarrow> int \<Rightarrow> real" where
  "win_score player n = determine_score (Some \<lparr>winner = Some player, total_ply_count = n\<rparr>) player"

definition loss_score :: "CheckersPlayer \<Rightarrow> int \<Rightarrow> real" where
  "loss_score player n =
     determine_score (Some \<lparr>winner = Some (next_player player), total_ply_count = n\<rparr>) player"

definition draw_score :: "CheckersPlayer \<Rightarrow> int \<Rightarrow> real" where
  "draw_score player n = determine_score (Some \<lparr>winner = None, total_ply_count = n\<rparr>) player"

text \<open>
  \<open>run_playout\<close> works on a copy of the state it is passed, so it returns only the result.
  Its loop has no bound of its own and is a partial function. A game result is an object
  without a truth value of its own, so \<open>if result := state.result\<close> tests for \<open>None\<close>.
  \<open>playout_loop\<close> is the loop over \<open>range(playout_count)\<close> in \<open>determine_score_for_move\<close>;
  its result \<open>None\<close> is the early \<open>return None\<close> after a cancellation.
\<close>

partial_function (option) run_playout ::
  "CheckersState \<Rightarrow> int \<Rightarrow> environment \<Rightarrow> ((error + CheckersGameResult option) \<times> environment) option" where
  "run_playout s max_ply_count env =
     (case is_set env of
        (cancelled, env1) \<Rightarrow>
          if cancelled then Some (Inr None, env1)
          else
            (case state_result s of
               None \<Rightarrow> None
             | Some (Inl e, s1) \<Rightarrow> Some (Inl e, env1)
             | Some (Inr (Some result), s1) \<Rightarrow> Some (Inr (Some result), env1)
             | Some (Inr None, s1) \<Rightarrow>
                 if st_ply_count s1 \<ge> max_ply_count then Some (Inr None, env1)
                 else
                   (case legal_moves s1 of
                      None \<Rightarrow> None
                    | Some (moves, s2) \<Rightarrow>
                        (case random_choice env1 moves of
                           Inl e \<Rightarrow> Some (Inl e, env1)
                         | Inr (move, env2) \<Rightarrow>
                             (case state_apply s2 move of
                                None \<Rightarrow> None
                              | Some (Inl (e, s3)) \<Rightarrow> Some (Inl e, env2)
                              | Some (Inr s3) \<Rightarrow> run_playout s3 max_ply_count env2)))))"

declare run_playout.simps [code]

fun playout_loop ::
  "nat \<Rightarrow> CheckersState \<Rightarrow> int \<Rightarrow> CheckersGameResult option list \<Rightarrow> environment \<Rightarrow>
   ((error + CheckersGameResult option list option) \<times> environment) option" where
  "playout_loop 0 start max_ply_count playout_results env = Some (Inr (Some playout_results), env)"
| "playout_loop (Suc n) start max_ply_count playout_results env =
     (case run_playout start max_ply_count env of
        None \<Rightarrow> None
      | Some (Inl e, env1) \<Rightarrow> Some (Inl e, env1)
      | Some (Inr playout_result, env1) \<Rightarrow>
          (case is_set env1 of
             (cancelled, env2) \<Rightarrow>
               if cancelled then Some (Inr None, env2)
               else playout_loop n start max_ply_count (playout_results @ [playout_result]) env2))"

text \<open>
  \<open>mean\<close> and \<open>stdev\<close> are the functions of the \<open>statistics\<close> module (the sample standard
  deviation). The assertion that there is at least one score holds because the playout count
  is positive at that point.
\<close>

definition mean :: "real list \<Rightarrow> real" where
  "mean xs = sum_list xs / real (length xs)"

definition stdev :: "real list \<Rightarrow> real" where
  "stdev xs = sqrt (sum_list (map (\<lambda>v. (v - mean xs)\<^sup>2) xs) / real (length xs - 1))"

definition determine_score_for_move ::
  "CheckersMove \<Rightarrow> CheckersState \<Rightarrow> int \<Rightarrow> environment \<Rightarrow>
   ((error + (real \<times> real) option) \<times> environment) option" where
  "determine_score_for_move move root_state playout_count env =
     (if playout_count \<le> 0 then Some (Inl NonPositivePlayoutCount, env)
      else
        (let max_ply_count = st_ply_count root_state + MAX_RECURSION_DEPTH in
         case state_apply root_state move of
           None \<Rightarrow> None
         | Some (Inl (e, s1)) \<Rightarrow> Some (Inl e, env)
         | Some (Inr playout_start_state) \<Rightarrow>
             (case playout_loop (nat playout_count) playout_start_state max_ply_count [] env of
                None \<Rightarrow> None
              | Some (Inl e, env1) \<Rightarrow> Some (Inl e, env1)
              | Some (Inr None, env1) \<Rightarrow> Some (Inr None, env1)
              | Some (Inr (Some playout_results), env1) \<Rightarrow>
                  (let scores = map (\<lambda>result. determine_score result (st_current_player root_state)) playout_results
                   in Some (Inr (Some (mean scores, if length scores \<ge> 2 then stdev scores else 0)), env1)))))"

text \<open>
  \<open>score_loop\<close> is the loop over the legal moves in \<open>pure_monte_carlo_game_search\<close>. The
  dictionary of scores is an association list in insertion order. \<open>choose_best\<close> is the rest of
  the function after the loop: unpacking a score of \<open>None\<close> raises \<open>TypeError\<close>, and
  \<open>math.isclose\<close> is called with both tolerances \<open>1e-5\<close>. The debug output and the timing
  decorator only print.
\<close>

fun score_loop ::
  "CheckersMove list \<Rightarrow> CheckersState \<Rightarrow> int \<Rightarrow> (CheckersMove \<times> (real \<times> real) option) list \<Rightarrow> environment \<Rightarrow>
   ((error + (CheckersMove \<times> (real \<times> real) option) list option) \<times> environment) option" where
  "score_loop [] state playout_count_per_move scores env = Some (Inr (Some scores), env)"
| "score_loop (move # moves) state playout_count_per_move scores env =
     (case determine_score_for_move move state playout_count_per_move env of
        None \<Rightarrow> None
      | Some (Inl e, env1) \<Rightarrow> Some (Inl e, env1)
      | Some (Inr score, env1) \<Rightarrow>
          (case is_set env1 of
             (cancelled, env2) \<Rightarrow>
               if cancelled then Some (Inr None, env2)
               else score_loop moves state playout_count_per_move (AList.update move score scores) env2))"

definition isclose :: "real \<Rightarrow> real \<Rightarrow> real \<Rightarrow> real \<Rightarrow> bool" where
  "isclose a c rel_tol abs_tol \<longleftrightarrow>
     a = c \<or> \<bar>a - c\<bar> \<le> max (rel_tol * max \<bar>a\<bar> \<bar>c\<bar>) abs_tol"

definition choose_best ::
  "(CheckersMove \<times> (real \<times> real) option) list \<Rightarrow> environment \<Rightarrow> (error + CheckersMove option) \<times> environment" where
  "choose_best scores env =
     (if None \<in> set (map snd scores) then (Inl TypeError, env)
      else if scores = [] then (Inl EmptySequence, env)
      else
        (let best_score = Max (set (map (\<lambda>(move, value). fst (the value)) scores));
             best_moves = map fst (filter (\<lambda>(move, value). isclose (fst (the value)) best_score (1 / 10 ^ 5) (1 / 10 ^ 5)) scores)
         in case random_choice env best_moves of
              Inl e \<Rightarrow> (Inl e, env)
            | Inr (move, env1) \<Rightarrow> (Inr (Some move), env1)))"

definition pure_monte_carlo_game_search ::
  "CheckersState \<Rightarrow> int \<Rightarrow> environment \<Rightarrow> ((error + CheckersMove option) \<times> environment) option" where
  "pure_monte_carlo_game_search state playout_count_per_move env =
     (case legal_moves state of
        None \<Rightarrow> None
      | Some (moves, state1) \<Rightarrow>
          if moves = [] then Some (Inr None, env)
          else if length moves = 1 then Some (Inr (Some (moves ! 0)), env)
          else
            (case score_loop moves state1 playout_count_per_move [] env of
               None \<Rightarrow> None
             | Some (Inl e, env1) \<Rightarrow> Some (Inl e, env1)
             | Some (Inr None, env1) \<Rightarrow> Some (Inr None, env1)
             | Some (Inr (Some scores), env1) \<Rightarrow> Some (choose_best scores env1)))"

section \<open>The loops of the rules engine return\<close>

text \<open>
  Along a direction with a non-zero column component the column index moves towards an edge of
  the board with every step, so the three \<open>while\<close> loops return.
\<close>

definition steps_left :: "CheckersBoard \<Rightarrow> Index2D \<Rightarrow> Index2D \<Rightarrow> nat" where
  "steps_left b delta square =
     (if 0 < x_of delta then nat (column_count b - x_of square) else nat (x_of square + 1))"

lemma steps_left_decreases:
  "x_of delta \<noteq> 0 \<Longrightarrow> contains b square \<Longrightarrow>
   steps_left b delta (index_add square delta) < steps_left b delta square"
  by (auto simp: steps_left_def contains_def index_add_def)

lemma diagonal_x_nonzero: "delta \<in> set DIAGONAL_DIRECTIONS \<Longrightarrow> x_of delta \<noteq> 0"
  by (auto simp: DIAGONAL_DIRECTIONS_def)

lemma nearest_piece_total:
  assumes "x_of delta \<noteq> 0"
  shows "\<exists>r. nearest_piece b delta square = Some r"
proof (induction "steps_left b delta square" arbitrary: square rule: less_induct)
  case less
  show ?case
  proof (cases "contains b square \<and> getitem b square = None")
    case False
    then show ?thesis
      by (subst nearest_piece.simps) (auto split: option.splits)
  next
    case True
    with assms have "steps_left b delta (index_add square delta) < steps_left b delta square"
      by (simp add: steps_left_decreases)
    from less [OF this] obtain r where "nearest_piece b delta (index_add square delta) = Some r" ..
    with True show ?thesis
      by (subst nearest_piece.simps) simp
  qed
qed

lemma landing_squares_total:
  assumes "x_of delta \<noteq> 0"
  shows "\<exists>js. landing_squares b delta captured_sq dest jumps = Some js"
proof (induction "steps_left b delta dest" arbitrary: dest jumps rule: less_induct)
  case less
  show ?case
  proof (cases "contains b dest \<and> getitem b dest = None")
    case False
    then show ?thesis
      by (subst landing_squares.simps) auto
  next
    case True
    with assms have "steps_left b delta (index_add dest delta) < steps_left b delta dest"
      by (simp add: steps_left_decreases)
    from less [OF this] obtain js where
      "landing_squares b delta captured_sq (index_add dest delta) (jumps @ [CheckersJump dest captured_sq]) = Some js" ..
    with True show ?thesis
      by (subst landing_squares.simps) simp
  qed
qed

lemma king_slide_total:
  assumes "x_of delta \<noteq> 0"
  shows "\<exists>ms. king_slide b delta origin dest moves = Some ms"
proof (induction "steps_left b delta dest" arbitrary: dest moves rule: less_induct)
  case less
  show ?case
  proof (cases "contains b dest \<and> getitem b dest = None")
    case False
    then show ?thesis
      by (subst king_slide.simps) auto
  next
    case True
    with assms have "steps_left b delta (index_add dest delta) < steps_left b delta dest"
      by (simp add: steps_left_decreases)
    from less [OF this] obtain ms where
      "king_slide b delta origin (index_add dest delta) (moves @ [CheckersMove [origin, dest]]) = Some ms" ..
    with True show ?thesis
      by (subst king_slide.simps) simp
  qed
qed

lemma king_jump_total:
  assumes "x_of delta \<noteq> 0"
  shows "\<exists>js. king_jump piece origin cs b delta jumps = Some js"
proof -
  from nearest_piece_total [OF assms] obtain r where
    r: "nearest_piece b delta (index_add origin delta) = Some r" ..
  show ?thesis
  proof (cases r)
    case None
    with r show ?thesis by (simp add: king_jump_def)
  next
    case (Some a)
    obtain ow sq where "a = (ow, sq)" by (cases a)
    with r Some landing_squares_total [OF assms, of b sq "index_add sq delta" jumps]
    show ?thesis by (auto simp: king_jump_def)
  qed
qed

lemma add_legal_jumps_total: "\<exists>js. add_legal_jumps piece origin cs b jumps = Some js"
proof (cases "ptype piece")
  case MAN
  then show ?thesis by (simp add: add_legal_jumps_def)
next
  case KING
  have "\<exists>js. for_each (king_jump piece origin cs b) DIAGONAL_DIRECTIONS jumps = Some js"
    by (rule for_each_total) (simp add: king_jump_total diagonal_x_nonzero)
  with KING show ?thesis by (simp add: add_legal_jumps_def)
qed

lemma add_legal_capturing_moves_total:
  "\<exists>ms. add_legal_capturing_moves piece visited captured b moves = Some ms"
proof (induction piece visited captured b moves rule: add_legal_capturing_moves.induct)
  case (1 piece visited captured b moves)
  from add_legal_jumps_total obtain jumps where
    jumps: "add_legal_jumps piece (last visited) captured b [] = Some jumps" by blast
  show ?case
  proof (cases "jumps = []")
    case True
    with jumps show ?thesis
      by (subst add_legal_capturing_moves.simps) simp
  next
    case False
    have "\<exists>t. for_each (\<lambda>jump ms.
                add_legal_capturing_moves piece (visited @ [destination jump])
                  (captured @ [captured_square jump]) b ms) jumps moves = Some t"
      by (rule for_each_total) (use "1.IH" [OF jumps False] in blast)
    with jumps False show ?thesis
      by (subst add_legal_capturing_moves.simps) simp
  qed
qed

text \<open>
  Every move that the search adds extends the path it was started with, has at least two
  squares, and is longer than that path by at most the number of capturable squares.
\<close>

lemma add_legal_capturing_moves_shape:
  "add_legal_capturing_moves piece visited captured b moves = Some ms \<Longrightarrow>
   \<exists>new. ms = moves @ new \<and>
     (\<forall>m \<in> set new. 2 \<le> move_len m \<and> take (length visited) (visited_squares m) = visited \<and>
        move_len m \<le> length visited + capturable_count piece captured b)"
proof (induction piece visited captured b moves arbitrary: ms rule: add_legal_capturing_moves.induct)
  case (1 piece visited captured b moves)
  let ?Q = "\<lambda>m. 2 \<le> move_len m \<and> take (length visited) (visited_squares m) = visited \<and>
        move_len m \<le> length visited + capturable_count piece captured b"
  from add_legal_jumps_total obtain jumps where
    jumps: "add_legal_jumps piece (last visited) captured b [] = Some jumps" by blast
  show ?case
  proof (cases "jumps = []")
    case True
    with jumps "1.prems" have "ms = (if 2 \<le> length visited then moves @ [CheckersMove visited] else moves)"
      by (subst (asm) add_legal_capturing_moves.simps) simp
    then show ?thesis by (auto simp: move_len_def)
  next
    case False
    with jumps "1.prems" have loop: "for_each (\<lambda>jump ms.
                add_legal_capturing_moves piece (visited @ [destination jump])
                  (captured @ [captured_square jump]) b ms) jumps moves = Some ms"
      by (subst (asm) add_legal_capturing_moves.simps) simp
    have "\<exists>new. ms = moves @ new \<and> (\<forall>m \<in> set new. ?Q m)"
    proof (rule for_each_invariant [OF loop, where P = "\<lambda>r. \<exists>new. r = moves @ new \<and> (\<forall>m \<in> set new. ?Q m)"])
      show "\<exists>new. moves = moves @ new \<and> (\<forall>m \<in> set new. ?Q m)" by simp
    next
      fix jump r r'
      assume jump: "jump \<in> set jumps"
        and r: "\<exists>new. r = moves @ new \<and> (\<forall>m \<in> set new. ?Q m)"
        and step: "add_legal_capturing_moves piece (visited @ [destination jump])
                  (captured @ [captured_square jump]) b r = Some r'"
      from r obtain new where new: "r = moves @ new" "\<forall>m \<in> set new. ?Q m" by blast
      from "1.IH" [OF jumps False jump step] obtain new' where new':
        "r' = r @ new'"
        "\<forall>m \<in> set new'. 2 \<le> move_len m \<and>
            take (length (visited @ [destination jump])) (visited_squares m) = visited @ [destination jump] \<and>
            move_len m \<le> length (visited @ [destination jump]) + capturable_count piece (captured @ [captured_square jump]) b"
        by blast
      have "capturable piece captured b (captured_square jump)"
        using add_legal_jumps_capturable [OF jumps] jump by simp
      then have less: "capturable_count piece (captured @ [captured_square jump]) b < capturable_count piece captured b"
        by (rule capturable_count_decreases)
      have "?Q m" if "m \<in> set new'" for m
      proof -
        from new'(2) that have m: "2 \<le> move_len m"
          "take (Suc (length visited)) (visited_squares m) = visited @ [destination jump]"
          "move_len m \<le> Suc (length visited) + capturable_count piece (captured @ [captured_square jump]) b"
          by auto
        have "take (length visited) (take (Suc (length visited)) (visited_squares m)) = visited"
          unfolding m(2) by simp
        then have "take (length visited) (visited_squares m) = visited"
          by (simp add: min_def)
        with m(1,3) less show ?thesis by simp
      qed
      with new new' show "\<exists>new. r' = moves @ new \<and> (\<forall>m \<in> set new. ?Q m)"
        by auto
    qed
    then show ?thesis .
  qed
qed

lemma capturable_count_le: "capturable_count piece captured b \<le> capturable_count piece [] b"
proof -
  have "filter (capturable piece captured b) (all_squares b)
        = filter (\<lambda>s. s \<notin> set captured) (filter (capturable piece [] b) (all_squares b))"
    by (auto simp: capturable_def intro!: filter_cong)
  then show ?thesis
    by (simp add: capturable_count_def del: filter_filter)
qed

section \<open>The board after \<open>determine_legal_moves\<close>\<close>

lemma setitem_restore:
  assumes "getitem b square = Some piece"
  shows "setitem (setitem b square None) square (Some piece) = b"
proof -
  let ?i = "nat (x_of square)" and ?j = "nat (y_of square)"
  have col: "(list_2d b ! ?i)[?j := Some piece] = list_2d b ! ?i"
    using assms by (metis getitem_def list_update_id)
  show ?thesis
  proof (cases "?i < length (list_2d b)")
    case True
    then show ?thesis
      by (simp add: setitem_def col)
  next
    case False
    then show ?thesis
      by (simp add: setitem_def list_update_beyond)
  qed
qed

lemma capture_step_board:
  assumes "capture_step current_player square (b, moves) = Some (b1, moves1)"
  shows "b1 = b"
  using assms
  by (auto simp: capture_step_def Let_def setitem_restore split: option.splits if_splits)

lemma gather_capturing_moves_board:
  assumes "gather_capturing_moves current_player b = Some (b1, moves1)"
  shows "b1 = b"
proof -
  have "fst (b1, moves1) = b"
    using assms unfolding gather_capturing_moves_def
    by (rule for_each_invariant [where P = "\<lambda>state. fst state = b"])
       (auto dest: capture_step_board)
  then show ?thesis by simp
qed

lemma capture_step_total: "\<exists>r. capture_step current_player square state = Some r"
proof (cases state)
  case (Pair b moves)
  show ?thesis
  proof (cases "getitem b square")
    case None
    with Pair show ?thesis by (simp add: capture_step_def)
  next
    case (Some piece)
    from add_legal_capturing_moves_total obtain ms where
      "add_legal_capturing_moves piece [square] [] (setitem b square None) moves = Some ms"
      by blast
    with Pair Some show ?thesis by (simp add: capture_step_def Let_def)
  qed
qed

lemma gather_capturing_moves_total:
  "\<exists>moves. gather_capturing_moves current_player b = Some (b, moves)"
proof -
  obtain r where r: "gather_capturing_moves current_player b = Some r"
    unfolding gather_capturing_moves_def
    using for_each_total [of "board_squares b" "capture_step current_player" "(b, [])"]
      capture_step_total by blast
  obtain b1 moves where "r = (b1, moves)" by (cases r)
  with r gather_capturing_moves_board show ?thesis by blast
qed

lemma add_legal_non_capturing_moves_total:
  "\<exists>ms. add_legal_non_capturing_moves piece_type forward_directions origin b moves = Some ms"
proof (cases piece_type)
  case MAN
  then show ?thesis by (simp add: add_legal_non_capturing_moves_def)
next
  case KING
  have "\<exists>ms. for_each (\<lambda>delta. king_slide b delta origin (index_add origin delta))
               DIAGONAL_DIRECTIONS moves = Some ms"
    by (rule for_each_total) (simp add: king_slide_total diagonal_x_nonzero)
  with KING show ?thesis by (simp add: add_legal_non_capturing_moves_def)
qed

lemma non_capture_step_total:
  "\<exists>ms. non_capture_step current_player forward_directions b square moves = Some ms"
  using add_legal_non_capturing_moves_total
  by (auto simp: non_capture_step_def split: option.splits)

lemma gather_non_capturing_moves_total:
  "\<exists>ms. gather_non_capturing_moves current_player b moves = Some ms"
  unfolding gather_non_capturing_moves_def
  by (rule for_each_total) (rule non_capture_step_total)

lemma determine_legal_moves_board:
  assumes "determine_legal_moves current_player b = Some (moves, b1)"
  shows "b1 = b"
  using assms
  by (auto simp: determine_legal_moves_def Let_def split: option.splits if_splits
           dest: gather_capturing_moves_board)

lemma determine_legal_moves_total:
  "\<exists>moves. determine_legal_moves current_player b = Some (moves, b)"
proof -
  from gather_capturing_moves_total obtain caps where
    caps: "gather_capturing_moves current_player b = Some (b, caps)" by blast
  show ?thesis
  proof (cases "caps = []")
    case False
    with caps show ?thesis by (simp add: determine_legal_moves_def Let_def)
  next
    case True
    from gather_non_capturing_moves_total obtain ms where
      "gather_non_capturing_moves current_player b caps = Some ms" by blast
    with caps True show ?thesis by (simp add: determine_legal_moves_def)
  qed
qed

section \<open>Legal moves of a state and the exceptions of \<open>apply\<close>\<close>

text \<open>
  Applying a move to the board raises nothing but the runtime errors of its accesses, and
  reading the legal moves of a state returns and changes only the cache.
\<close>

lemma list_get_error: "list_get xs i = Inl e \<Longrightarrow> e = IndexError"
  by (auto simp: list_get_def Let_def split: if_splits)

lemma list_set_error: "list_set xs i v = Inl e \<Longrightarrow> e = IndexError"
  by (auto simp: list_set_def Let_def split: if_splits)

lemma getitem_checked_error: "getitem_checked b index = Inl e \<Longrightarrow> e = IndexError"
  by (auto simp: getitem_checked_def split: sum.splits dest: list_get_error)

lemma setitem_checked_error: "setitem_checked b index piece = Inl e \<Longrightarrow> e = IndexError"
  by (auto simp: setitem_checked_def split: sum.splits dest: list_get_error list_set_error)

lemma remove_loop_error:
  assumes "remove_loop delta end_square square b = Some r"
  shows "\<forall>e b1. r = Inl (e, b1) \<longrightarrow> e = IndexError"
  by (rule remove_loop.raw_induct
        [where P = "\<lambda>delta end_square square b r. \<forall>e b1. r = Inl (e, b1) \<longrightarrow> e = IndexError", OF _ assms])
     (auto split: if_splits sum.splits dest: setitem_checked_error)

lemma remove_captured_error:
  "remove_captured pairs b = Some (Inl (e, b1)) \<Longrightarrow> e = IndexError"
proof (induction pairs b rule: remove_captured.induct)
  case (1 b)
  then show ?case by simp
next
  case (2 previous_square square pairs b)
  then show ?case
    by (auto simp: remove_pieces_between_def Let_def split: option.splits sum.splits
             dest: remove_loop_error)
qed

lemma apply_move_error:
  assumes "apply_move move b = Some (Inl (e, b1))"
  shows "e \<noteq> IllegalMove"
  using assms
  by (auto simp: apply_move_def Let_def
           split: list.splits option.splits sum.splits if_splits
           dest: getitem_checked_error setitem_checked_error remove_captured_error)

lemma legal_moves_total:
  "\<exists>moves s1. legal_moves s = Some (moves, s1) \<and>
     st_board s1 = st_board s \<and> st_current_player s1 = st_current_player s \<and>
     st_ply_count s1 = st_ply_count s \<and> st_cached_legal_moves s1 = Some moves"
proof (cases "st_cached_legal_moves s")
  case (Some moves)
  then show ?thesis by (simp add: legal_moves_def)
next
  case None
  from determine_legal_moves_total obtain moves where
    "determine_legal_moves (st_current_player s) (st_board s) = Some (moves, st_board s)" by blast
  with None show ?thesis by (simp add: legal_moves_def)
qed

section \<open>The shortcuts of the search and the scores of the outcomes\<close>

lemma search_without_moves:
  "legal_moves state = Some ([], state1) \<Longrightarrow>
   pure_monte_carlo_game_search state playout_count_per_move env = Some (Inr None, env)"
  by (simp add: pure_monte_carlo_game_search_def)

lemma search_single_move:
  "legal_moves state = Some ([move], state1) \<Longrightarrow>
   pure_monte_carlo_game_search state playout_count_per_move env = Some (Inr (Some move), env)"
  by (simp add: pure_monte_carlo_game_search_def)

lemma score_loop_invalid_count:
  "playout_count_per_move \<le> 0 \<Longrightarrow> moves \<noteq> [] \<Longrightarrow>
   score_loop moves state playout_count_per_move scores env = Some (Inl NonPositivePlayoutCount, env)"
  by (cases moves) (simp_all add: determine_score_for_move_def)

lemma next_player_neq: "next_player player \<noteq> player"
  by (cases player) simp_all

lemma win_score_eq: "win_score player n = 1 - min (0.001 * of_int n) 0.2"
  by (simp add: win_score_def determine_score_def)

lemma loss_score_eq: "loss_score player n = min (0.001 * of_int n) 0.2"
  by (simp add: loss_score_def determine_score_def next_player_neq)

lemma draw_score_eq: "draw_score player n = 0.5 + min (0.001 * of_int n) 0.2"
  by (simp add: draw_score_def determine_score_def)

section \<open>Capturing and non-capturing moves\<close>

text \<open>
  What the two kinds of move are on a board, stated without the search that finds them.
  \<open>along source delta k\<close> is the square \<open>k\<close> steps from \<open>source\<close> in direction \<open>delta\<close>.
  A piece of \<open>player\<close> jumps from \<open>source\<close> to \<open>target\<close> when both lie on one diagonal, the
  target is an empty square of the board and a square strictly between them holds a piece of the
  other player. A capturing move of \<open>player\<close> has at least two squares, starts on a piece of
  \<open>player\<close>, and each of its steps is such a jump on the board with the moving piece taken
  off. A non-capturing move has two squares, and every square from the one after its origin up
  to its destination, along one diagonal, is an empty square of the board.
\<close>

definition along :: "Index2D \<Rightarrow> Index2D \<Rightarrow> int \<Rightarrow> Index2D" where
  "along source delta k = index_add source (index_mul delta k)"

definition jumps_over :: "CheckersBoard \<Rightarrow> CheckersPlayer \<Rightarrow> Index2D \<Rightarrow> Index2D \<Rightarrow> bool" where
  "jumps_over b player source target \<longleftrightarrow>
     (\<exists>delta \<in> set DIAGONAL_DIRECTIONS. \<exists>i k. 1 \<le> i \<and> i < k \<and>
        target = along source delta k \<and>
        contains b (along source delta i) \<and>
        (\<exists>p. getitem b (along source delta i) = Some p \<and> owner p \<noteq> player) \<and>
        contains b target \<and> getitem b target = None)"

fun jump_chain :: "CheckersBoard \<Rightarrow> CheckersPlayer \<Rightarrow> Index2D list \<Rightarrow> bool" where
  "jump_chain b player (source # target # rest) \<longleftrightarrow>
     jumps_over b player source target \<and> jump_chain b player (target # rest)"
| "jump_chain b player squares \<longleftrightarrow> True"

definition capturing_move :: "CheckersBoard \<Rightarrow> CheckersPlayer \<Rightarrow> CheckersMove \<Rightarrow> bool" where
  "capturing_move b player move \<longleftrightarrow>
     2 \<le> move_len move \<and>
     (\<exists>p. getitem b (hd (visited_squares move)) = Some p \<and> owner p = player) \<and>
     jump_chain (setitem b (hd (visited_squares move)) None) player (visited_squares move)"

definition slides :: "CheckersBoard \<Rightarrow> Index2D \<Rightarrow> Index2D \<Rightarrow> bool" where
  "slides b source target \<longleftrightarrow>
     (\<exists>delta \<in> set DIAGONAL_DIRECTIONS. \<exists>k. 1 \<le> k \<and> target = along source delta k \<and>
        (\<forall>t. 1 \<le> t \<and> t \<le> k \<longrightarrow>
           contains b (along source delta t) \<and> getitem b (along source delta t) = None))"

definition non_capturing_move :: "CheckersBoard \<Rightarrow> CheckersMove \<Rightarrow> bool" where
  "non_capturing_move b move \<longleftrightarrow>
     (\<exists>source target. visited_squares move = [source, target] \<and> slides b source target)"

text \<open>
  The jumps found by \<open>add_legal_jumps\<close> are jumps in this sense, so the moves gathered in the
  first phase of \<open>determine_legal_moves\<close> are capturing moves; the moves gathered in the second
  phase are non-capturing moves; and no move is both.
\<close>

lemma along_step: "index_add (along source delta k) delta = along source delta (k + 1)"
  by (simp add: along_def index_add_def index_mul_def algebra_simps)

lemma along_one: "index_add source delta = along source delta 1"
  by (simp add: along_def index_add_def index_mul_def)

lemma along_along: "along (along source delta i) delta k = along source delta (i + k)"
  by (simp add: along_def index_add_def index_mul_def algebra_simps)

lemma along_zero: "along source delta 0 = source"
  by (simp add: along_def index_add_def index_mul_def)

lemma nearest_piece_along_aux:
  assumes "nearest_piece b delta square = Some r"
  shows "\<forall>source n ow c. square = along source delta n \<longrightarrow> r = Some (ow, c) \<longrightarrow>
           (\<exists>i\<ge>n. c = along source delta i)"
proof (rule nearest_piece.raw_induct
        [where P = "\<lambda>b delta square r. \<forall>source n ow c. square = along source delta n \<longrightarrow>
            r = Some (ow, c) \<longrightarrow> (\<exists>i\<ge>n. c = along source delta i)", OF _ assms])
  fix nearest b delta square r
  assume IH: "\<And>b delta square r. nearest b delta square = Some r \<Longrightarrow>
                \<forall>source n ow c. square = along source delta n \<longrightarrow> r = Some (ow, c) \<longrightarrow>
                  (\<exists>i\<ge>n. c = along source delta i)"
    and body: "(if contains b square then
                  (case getitem b square of
                     Some captured_piece \<Rightarrow> Some (Some (owner captured_piece, square))
                   | None \<Rightarrow> nearest b delta (index_add square delta))
                else Some None) = Some r"
  show "\<forall>source n ow c. square = along source delta n \<longrightarrow> r = Some (ow, c) \<longrightarrow>
          (\<exists>i\<ge>n. c = along source delta i)"
  proof (intro allI impI)
    fix source n ow c
    assume sq: "square = along source delta n" and r: "r = Some (ow, c)"
    show "\<exists>i\<ge>n. c = along source delta i"
    proof (cases "getitem b square")
      case (Some captured_piece)
      with body r have "c = square" by (auto split: if_splits)
      with sq show ?thesis by auto
    next
      case None
      with body r have "nearest b delta (index_add square delta) = Some (Some (ow, c))"
        by (auto split: if_splits)
      from IH [OF this] sq have "\<exists>i\<ge>n + 1. c = along source delta i"
        by (simp add: along_step)
      then obtain i where "n + 1 \<le> i" "c = along source delta i" by blast
      then have "n \<le> i \<and> c = along source delta i" by simp
      then show ?thesis by blast
    qed
  qed
qed

lemma nearest_piece_along:
  assumes "nearest_piece b delta (along source delta n) = Some (Some (ow, c))"
  shows "\<exists>i\<ge>n. c = along source delta i"
  using nearest_piece_along_aux [OF assms] by blast

lemma landing_squares_along_aux:
  assumes "landing_squares b delta c dest jumps = Some js"
  shows "\<forall>source n. dest = along source delta n \<longrightarrow>
           (\<forall>j \<in> set js. j \<in> set jumps \<or>
              (captured_square j = c \<and> (\<exists>k\<ge>n. destination j = along source delta k) \<and>
               contains b (destination j) \<and> getitem b (destination j) = None))"
proof (rule landing_squares.raw_induct
        [where P = "\<lambda>b delta c dest jumps js. \<forall>source n. dest = along source delta n \<longrightarrow>
           (\<forall>j \<in> set js. j \<in> set jumps \<or>
              (captured_square j = c \<and> (\<exists>k\<ge>n. destination j = along source delta k) \<and>
               contains b (destination j) \<and> getitem b (destination j) = None))", OF _ assms])
  fix landing b delta c dest jumps js
  assume IH: "\<And>b delta c dest jumps js. landing b delta c dest jumps = Some js \<Longrightarrow>
                \<forall>source n. dest = along source delta n \<longrightarrow>
                 (\<forall>j \<in> set js. j \<in> set jumps \<or>
                    (captured_square j = c \<and> (\<exists>k\<ge>n. destination j = along source delta k) \<and>
                     contains b (destination j) \<and> getitem b (destination j) = None))"
    and body: "(if contains b dest then
                  (if getitem b dest \<noteq> None then Some jumps
                   else landing b delta c (index_add dest delta) (jumps @ [CheckersJump dest c]))
                else Some jumps) = Some js"
  show "\<forall>source n. dest = along source delta n \<longrightarrow>
          (\<forall>j \<in> set js. j \<in> set jumps \<or>
             (captured_square j = c \<and> (\<exists>k\<ge>n. destination j = along source delta k) \<and>
              contains b (destination j) \<and> getitem b (destination j) = None))"
  proof (intro allI impI ballI)
    fix source n j
    assume dest: "dest = along source delta n" and j: "j \<in> set js"
    show "j \<in> set jumps \<or>
             (captured_square j = c \<and> (\<exists>k\<ge>n. destination j = along source delta k) \<and>
              contains b (destination j) \<and> getitem b (destination j) = None)"
    proof (cases "contains b dest \<and> getitem b dest = None")
      case False
      with body have "js = jumps" by (auto split: if_splits)
      with j show ?thesis by simp
    next
      case True
      with body have "landing b delta c (index_add dest delta) (jumps @ [CheckersJump dest c]) = Some js"
        by simp
      from IH [OF this] dest j
      have "j \<in> set (jumps @ [CheckersJump dest c]) \<or>
             (captured_square j = c \<and> (\<exists>k\<ge>n + 1. destination j = along source delta k) \<and>
              contains b (destination j) \<and> getitem b (destination j) = None)"
        by (simp add: along_step)
      then show ?thesis
      proof (elim disjE conjE exE)
        assume "j \<in> set (jumps @ [CheckersJump dest c])"
        then have "j \<in> set jumps \<or> j = CheckersJump dest c" by auto
        then show ?thesis
          using True dest by auto
      next
        fix k
        assume "captured_square j = c" "n + 1 \<le> k" "destination j = along source delta k"
          "contains b (destination j)" "getitem b (destination j) = None"
        then have "captured_square j = c \<and> (n \<le> k \<and> destination j = along source delta k) \<and>
              contains b (destination j) \<and> getitem b (destination j) = None" by simp
        then show ?thesis by blast
      qed
    qed
  qed
qed


lemma man_jump_jumps_over:
  assumes "delta \<in> set DIAGONAL_DIRECTIONS"
    and "\<forall>j \<in> set jumps. jumps_over b (owner piece) origin (destination j)"
  shows "\<forall>j \<in> set (man_jump piece origin cs b delta jumps). jumps_over b (owner piece) origin (destination j)"
proof
  fix j assume j: "j \<in> set (man_jump piece origin cs b delta jumps)"
  show "jumps_over b (owner piece) origin (destination j)"
  proof (cases "j \<in> set jumps")
    case True
    with assms(2) show ?thesis by blast
  next
    case False
    with j have new: "j = CheckersJump (along origin delta 2) (along origin delta 1)"
      "contains b (along origin delta 1)"
      "\<exists>p. getitem b (along origin delta 1) = Some p \<and> owner p \<noteq> owner piece"
      "contains b (along origin delta 2)" "getitem b (along origin delta 2) = None"
      by (auto simp: man_jump_def Let_def along_one along_along split: option.splits if_splits)
    have "(1::int) \<le> 1 \<and> (1::int) < 2 \<and> destination j = along origin delta 2"
      using new(1) by simp
    with new(2-5) assms(1) show ?thesis
      unfolding jumps_over_def by (metis new(1) CheckersJump.sel(1))
  qed
qed

lemma king_jump_jumps_over:
  assumes "delta \<in> set DIAGONAL_DIRECTIONS"
    and "king_jump piece origin cs b delta jumps = Some js"
    and "\<forall>j \<in> set jumps. jumps_over b (owner piece) origin (destination j)"
  shows "\<forall>j \<in> set js. jumps_over b (owner piece) origin (destination j)"
proof
  fix j assume j: "j \<in> set js"
  show "jumps_over b (owner piece) origin (destination j)"
  proof (cases "j \<in> set jumps")
    case True
    with assms(3) show ?thesis by blast
  next
    case False
    from assms(2) j False obtain ow c where
      scan: "nearest_piece b delta (index_add origin delta) = Some (Some (ow, c))"
      and ow: "ow \<noteq> owner piece"
      and land: "landing_squares b delta c (index_add c delta) jumps = Some js"
      by (auto simp: king_jump_def split: option.splits if_splits)
    from nearest_piece_found [OF scan] ow have c:
      "contains b c" "\<exists>p. getitem b c = Some p \<and> owner p \<noteq> owner piece" by auto
    from nearest_piece_along [of b delta origin 1 ow c] scan obtain i where
      i: "1 \<le> i" "c = along origin delta i" by (auto simp: along_one)
    have "index_add c delta = along origin delta (i + 1)"
      by (simp add: i(2) along_step)
    with landing_squares_along_aux [OF land] j False obtain k where
      k: "i + 1 \<le> k" "destination j = along origin delta k"
        "contains b (destination j)" "getitem b (destination j) = None"
      by blast
    from k(1) have "i < k" by simp
    with i k c assms(1) show ?thesis
      unfolding jumps_over_def by blast
  qed
qed

lemma add_legal_jumps_jumps_over:
  assumes "add_legal_jumps piece origin cs b [] = Some js"
  shows "\<forall>j \<in> set js. jumps_over b (owner piece) origin (destination j)"
proof (cases "ptype piece")
  case MAN
  with assms have js: "js = fold (man_jump piece origin cs b) DIAGONAL_DIRECTIONS []"
    by (simp add: add_legal_jumps_def)
  show ?thesis unfolding js
    by (rule fold_invariant [where P = "\<lambda>js. \<forall>j \<in> set js. jumps_over b (owner piece) origin (destination j)"])
       (use man_jump_jumps_over in auto)
next
  case KING
  with assms have "for_each (king_jump piece origin cs b) DIAGONAL_DIRECTIONS [] = Some js"
    by (simp add: add_legal_jumps_def)
  then show ?thesis
    by (rule for_each_invariant [where P = "\<lambda>js. \<forall>j \<in> set js. jumps_over b (owner piece) origin (destination j)"])
       (use king_jump_jumps_over in auto)
qed

lemma add_legal_capturing_moves_chain:
  "add_legal_capturing_moves piece visited captured b moves = Some ms \<Longrightarrow>
   \<exists>new. ms = moves @ new \<and>
     (\<forall>m \<in> set new. \<exists>ext. visited_squares m = visited @ ext \<and>
        jump_chain b (owner piece) (last visited # ext))"
proof (induction piece visited captured b moves arbitrary: ms rule: add_legal_capturing_moves.induct)
  case (1 piece visited captured b moves)
  let ?Q = "\<lambda>m. \<exists>ext. visited_squares m = visited @ ext \<and> jump_chain b (owner piece) (last visited # ext)"
  from add_legal_jumps_total obtain jumps where
    jumps: "add_legal_jumps piece (last visited) captured b [] = Some jumps" by blast
  show ?case
  proof (cases "jumps = []")
    case True
    with jumps "1.prems" have "ms = (if 2 \<le> length visited then moves @ [CheckersMove visited] else moves)"
      by (subst (asm) add_legal_capturing_moves.simps) simp
    then show ?thesis by auto
  next
    case False
    with jumps "1.prems" have loop: "for_each (\<lambda>jump ms.
                add_legal_capturing_moves piece (visited @ [destination jump])
                  (captured @ [captured_square jump]) b ms) jumps moves = Some ms"
      by (subst (asm) add_legal_capturing_moves.simps) simp
    have "\<exists>new. ms = moves @ new \<and> (\<forall>m \<in> set new. ?Q m)"
    proof (rule for_each_invariant [OF loop, where P = "\<lambda>r. \<exists>new. r = moves @ new \<and> (\<forall>m \<in> set new. ?Q m)"])
      show "\<exists>new. moves = moves @ new \<and> (\<forall>m \<in> set new. ?Q m)" by simp
    next
      fix jump r r'
      assume jump: "jump \<in> set jumps"
        and r: "\<exists>new. r = moves @ new \<and> (\<forall>m \<in> set new. ?Q m)"
        and step: "add_legal_capturing_moves piece (visited @ [destination jump])
                  (captured @ [captured_square jump]) b r = Some r'"
      from r obtain new where new: "r = moves @ new" "\<forall>m \<in> set new. ?Q m" by blast
      from "1.IH" [OF jumps False jump step] obtain new' where new':
        "r' = r @ new'"
        "\<forall>m \<in> set new'. \<exists>ext. visited_squares m = (visited @ [destination jump]) @ ext \<and>
            jump_chain b (owner piece) (last (visited @ [destination jump]) # ext)"
        by blast
      have over: "jumps_over b (owner piece) (last visited) (destination jump)"
        using add_legal_jumps_jumps_over [OF jumps] jump by blast
      have "?Q m" if "m \<in> set new'" for m
      proof -
        from new'(2) that obtain ext where ext:
          "visited_squares m = (visited @ [destination jump]) @ ext"
          "jump_chain b (owner piece) (destination jump # ext)"
          by auto
        have "visited_squares m = visited @ (destination jump # ext)"
          using ext(1) by simp
        moreover have "jump_chain b (owner piece) (last visited # destination jump # ext)"
          using over ext(2) by simp
        ultimately show ?thesis by blast
      qed
      with new new' show "\<exists>new. r' = moves @ new \<and> (\<forall>m \<in> set new. ?Q m)"
        by auto
    qed
    then show ?thesis .
  qed
qed


lemma capture_step_moves:
  assumes "capture_step player square (b, moves) = Some (b1, moves1)"
  shows "\<exists>new. moves1 = moves @ new \<and> (\<forall>m \<in> set new. capturing_move b player m)"
proof (cases "getitem b square")
  case None
  with assms show ?thesis by (simp add: capture_step_def)
next
  case (Some piece)
  show ?thesis
  proof (cases "owner piece = player")
    case False
    with Some assms show ?thesis by (simp add: capture_step_def)
  next
    case True
    with Some assms have run:
      "add_legal_capturing_moves piece [square] [] (setitem b square None) moves = Some moves1"
      by (auto simp: capture_step_def Let_def split: option.splits)
    from add_legal_capturing_moves_chain [OF run] obtain new where new:
      "moves1 = moves @ new"
      "\<forall>m \<in> set new. \<exists>ext. visited_squares m = [square] @ ext \<and>
          jump_chain (setitem b square None) (owner piece) (last [square] # ext)"
      by blast
    from add_legal_capturing_moves_shape [OF run] new(1) have len: "\<forall>m \<in> set new. 2 \<le> move_len m"
      by auto
    have "capturing_move b player m" if "m \<in> set new" for m
    proof -
      from new(2) that obtain ext where
        "visited_squares m = square # ext" "jump_chain (setitem b square None) player (square # ext)"
        using True by auto
      with len that Some True show ?thesis
        by (simp add: capturing_move_def)
    qed
    with new(1) show ?thesis by blast
  qed
qed

lemma gather_capturing_moves_capturing:
  assumes "gather_capturing_moves player b = Some (b1, caps)"
  shows "\<forall>m \<in> set caps. capturing_move b player m"
proof -
  have "fst (b1, caps) = b \<and> (\<forall>m \<in> set (snd (b1, caps)). capturing_move b player m)"
    using assms unfolding gather_capturing_moves_def
  proof (rule for_each_invariant [where P = "\<lambda>state. fst state = b \<and> (\<forall>m \<in> set (snd state). capturing_move b player m)"])
    show "fst (b, []) = b \<and> (\<forall>m \<in> set (snd (b, [])). capturing_move b player m)" by simp
  next
    fix square r r'
    assume r: "fst r = b \<and> (\<forall>m \<in> set (snd r). capturing_move b player m)"
      and step: "capture_step player square r = Some r'"
    obtain moves where r_eq: "r = (b, moves)" using r by (cases r) auto
    obtain b' moves' where r'_eq: "r' = (b', moves')" by (cases r')
    from step r_eq r'_eq capture_step_board have "b' = b" by blast
    moreover from step r_eq r'_eq capture_step_moves [of player square b moves b' moves'] r
    have "\<forall>m \<in> set moves'. capturing_move b player m" by auto
    ultimately show "fst r' = b \<and> (\<forall>m \<in> set (snd r'). capturing_move b player m)"
      using r'_eq by simp
  qed
  then show ?thesis by simp
qed

lemma king_slide_slides_aux:
  assumes "king_slide b delta origin dest moves = Some ms"
  shows "\<forall>n. dest = along origin delta n \<and>
              (\<forall>t. 1 \<le> t \<and> t < n \<longrightarrow> contains b (along origin delta t) \<and> getitem b (along origin delta t) = None) \<longrightarrow>
           (\<forall>m \<in> set ms. m \<in> set moves \<or>
              (\<exists>k\<ge>n. visited_squares m = [origin, along origin delta k] \<and>
                 (\<forall>t. 1 \<le> t \<and> t \<le> k \<longrightarrow> contains b (along origin delta t) \<and> getitem b (along origin delta t) = None)))"
proof (rule king_slide.raw_induct
        [where P = "\<lambda>b delta origin dest moves ms. \<forall>n. dest = along origin delta n \<and>
              (\<forall>t. 1 \<le> t \<and> t < n \<longrightarrow> contains b (along origin delta t) \<and> getitem b (along origin delta t) = None) \<longrightarrow>
           (\<forall>m \<in> set ms. m \<in> set moves \<or>
              (\<exists>k\<ge>n. visited_squares m = [origin, along origin delta k] \<and>
                 (\<forall>t. 1 \<le> t \<and> t \<le> k \<longrightarrow> contains b (along origin delta t) \<and> getitem b (along origin delta t) = None)))",
         OF _ assms])
  fix slide b delta origin dest moves ms
  assume IH: "\<And>b delta origin dest moves ms. slide b delta origin dest moves = Some ms \<Longrightarrow>
           \<forall>n. dest = along origin delta n \<and>
              (\<forall>t. 1 \<le> t \<and> t < n \<longrightarrow> contains b (along origin delta t) \<and> getitem b (along origin delta t) = None) \<longrightarrow>
           (\<forall>m \<in> set ms. m \<in> set moves \<or>
              (\<exists>k\<ge>n. visited_squares m = [origin, along origin delta k] \<and>
                 (\<forall>t. 1 \<le> t \<and> t \<le> k \<longrightarrow> contains b (along origin delta t) \<and> getitem b (along origin delta t) = None)))"
    and body: "(if contains b dest then
                  (if getitem b dest \<noteq> None then Some moves
                   else slide b delta origin (index_add dest delta) (moves @ [CheckersMove [origin, dest]]))
                else Some moves) = Some ms"
  show "\<forall>n. dest = along origin delta n \<and>
              (\<forall>t. 1 \<le> t \<and> t < n \<longrightarrow> contains b (along origin delta t) \<and> getitem b (along origin delta t) = None) \<longrightarrow>
           (\<forall>m \<in> set ms. m \<in> set moves \<or>
              (\<exists>k\<ge>n. visited_squares m = [origin, along origin delta k] \<and>
                 (\<forall>t. 1 \<le> t \<and> t \<le> k \<longrightarrow> contains b (along origin delta t) \<and> getitem b (along origin delta t) = None)))"
  proof (intro allI impI ballI, elim conjE)
    fix n m
    assume dest: "dest = along origin delta n"
      and clear: "\<forall>t. 1 \<le> t \<and> t < n \<longrightarrow> contains b (along origin delta t) \<and> getitem b (along origin delta t) = None"
      and m: "m \<in> set ms"
    show "m \<in> set moves \<or>
              (\<exists>k\<ge>n. visited_squares m = [origin, along origin delta k] \<and>
                 (\<forall>t. 1 \<le> t \<and> t \<le> k \<longrightarrow> contains b (along origin delta t) \<and> getitem b (along origin delta t) = None))"
    proof (cases "contains b dest \<and> getitem b dest = None")
      case False
      with body have "ms = moves" by (auto split: if_splits)
      with m show ?thesis by simp
    next
      case True
      with body have run: "slide b delta origin (index_add dest delta) (moves @ [CheckersMove [origin, dest]]) = Some ms"
        by simp
      have clear': "\<forall>t. 1 \<le> t \<and> t < n + 1 \<longrightarrow> contains b (along origin delta t) \<and> getitem b (along origin delta t) = None"
      proof (intro allI impI)
        fix t :: int assume t: "1 \<le> t \<and> t < n + 1"
        show "contains b (along origin delta t) \<and> getitem b (along origin delta t) = None"
        proof (cases "t = n")
          case True
          with \<open>contains b dest \<and> getitem b dest = None\<close> dest show ?thesis by simp
        next
          case False
          with t clear show ?thesis by simp
        qed
      qed
      have "index_add dest delta = along origin delta (n + 1)"
        by (simp add: dest along_step)
      with IH [OF run] clear' m
      have "m \<in> set (moves @ [CheckersMove [origin, dest]]) \<or>
              (\<exists>k\<ge>n + 1. visited_squares m = [origin, along origin delta k] \<and>
                 (\<forall>t. 1 \<le> t \<and> t \<le> k \<longrightarrow> contains b (along origin delta t) \<and> getitem b (along origin delta t) = None))"
        by blast
      then show ?thesis
      proof (elim disjE exE conjE)
        assume "m \<in> set (moves @ [CheckersMove [origin, dest]])"
        then have "m \<in> set moves \<or> m = CheckersMove [origin, dest]" by auto
        then show ?thesis
        proof
          assume "m \<in> set moves" then show ?thesis by simp
        next
          assume "m = CheckersMove [origin, dest]"
          then have "n \<le> n \<and> visited_squares m = [origin, along origin delta n] \<and>
                 (\<forall>t. 1 \<le> t \<and> t \<le> n \<longrightarrow> contains b (along origin delta t) \<and> getitem b (along origin delta t) = None)"
            using dest clear' by simp
          then show ?thesis by blast
        qed
      next
        fix k
        assume "n + 1 \<le> k" "visited_squares m = [origin, along origin delta k]"
          "\<forall>t. 1 \<le> t \<and> t \<le> k \<longrightarrow> contains b (along origin delta t) \<and> getitem b (along origin delta t) = None"
        then have "n \<le> k \<and> visited_squares m = [origin, along origin delta k] \<and>
                 (\<forall>t. 1 \<le> t \<and> t \<le> k \<longrightarrow> contains b (along origin delta t) \<and> getitem b (along origin delta t) = None)"
          by simp
        then show ?thesis by blast
      qed
    qed
  qed
qed


lemma king_slide_non_capturing:
  assumes "delta \<in> set DIAGONAL_DIRECTIONS"
    and "king_slide b delta origin (index_add origin delta) moves = Some ms"
    and "\<forall>m \<in> set moves. non_capturing_move b m"
  shows "\<forall>m \<in> set ms. non_capturing_move b m"
proof
  fix m assume m: "m \<in> set ms"
  have start: "index_add origin delta = along origin delta 1 \<and>
        (\<forall>t. 1 \<le> t \<and> t < 1 \<longrightarrow> contains b (along origin delta t) \<and> getitem b (along origin delta t) = None)"
    by (auto simp: along_one)
  from king_slide_slides_aux [OF assms(2)] start m
  have "m \<in> set moves \<or>
          (\<exists>k\<ge>1. visited_squares m = [origin, along origin delta k] \<and>
             (\<forall>t. 1 \<le> t \<and> t \<le> k \<longrightarrow> contains b (along origin delta t) \<and> getitem b (along origin delta t) = None))"
    by blast
  then show "non_capturing_move b m"
  proof
    assume "m \<in> set moves"
    with assms(3) show ?thesis by blast
  next
    assume "\<exists>k\<ge>1. visited_squares m = [origin, along origin delta k] \<and>
             (\<forall>t. 1 \<le> t \<and> t \<le> k \<longrightarrow> contains b (along origin delta t) \<and> getitem b (along origin delta t) = None)"
    then obtain k where "1 \<le> k" "visited_squares m = [origin, along origin delta k]"
      "\<forall>t. 1 \<le> t \<and> t \<le> k \<longrightarrow> contains b (along origin delta t) \<and> getitem b (along origin delta t) = None"
      by blast
    with assms(1) show ?thesis
      unfolding non_capturing_move_def slides_def by blast
  qed
qed

lemma man_step_non_capturing:
  assumes "delta \<in> set DIAGONAL_DIRECTIONS"
    and "\<forall>m \<in> set moves. non_capturing_move b m"
  shows "\<forall>m \<in> set (man_step origin b delta moves). non_capturing_move b m"
proof
  fix m assume m: "m \<in> set (man_step origin b delta moves)"
  show "non_capturing_move b m"
  proof (cases "m \<in> set moves")
    case True
    with assms(2) show ?thesis by blast
  next
    case False
    with m have new: "visited_squares m = [origin, along origin delta 1]"
      "contains b (along origin delta 1)" "getitem b (along origin delta 1) = None"
      by (auto simp: man_step_def Let_def along_one split: if_splits)
    have "\<forall>t. 1 \<le> t \<and> t \<le> 1 \<longrightarrow> contains b (along origin delta t) \<and> getitem b (along origin delta t) = None"
    proof (intro allI impI)
      fix t :: int assume "1 \<le> t \<and> t \<le> 1"
      then have "t = 1" by simp
      with new show "contains b (along origin delta t) \<and> getitem b (along origin delta t) = None" by simp
    qed
    with new(1) assms(1) show ?thesis
      unfolding non_capturing_move_def slides_def by force
  qed
qed

lemma forward_directions_diagonal:
  "delta \<in> set (get_forward_directions player) \<Longrightarrow> delta \<in> set DIAGONAL_DIRECTIONS"
  by (cases player)
     (auto simp: get_forward_directions_def LIGHT_PLAYER_FORWARD_DIRECTIONS_def
        DARK_PLAYER_FORWARD_DIRECTIONS_def DIAGONAL_DIRECTIONS_def)

lemma add_legal_non_capturing_moves_non_capturing:
  assumes "add_legal_non_capturing_moves piece_type (get_forward_directions player) origin b moves = Some ms"
    and "\<forall>m \<in> set moves. non_capturing_move b m"
  shows "\<forall>m \<in> set ms. non_capturing_move b m"
proof (cases piece_type)
  case MAN
  with assms(1) have ms: "ms = fold (man_step origin b) (get_forward_directions player) moves"
    by (simp add: add_legal_non_capturing_moves_def)
  show ?thesis unfolding ms
    by (rule fold_invariant [where P = "\<lambda>ms. \<forall>m \<in> set ms. non_capturing_move b m"])
       (use assms(2) man_step_non_capturing forward_directions_diagonal in blast)+
next
  case KING
  with assms(1) have "for_each (\<lambda>delta. king_slide b delta origin (index_add origin delta))
                        DIAGONAL_DIRECTIONS moves = Some ms"
    by (simp add: add_legal_non_capturing_moves_def)
  then show ?thesis
    by (rule for_each_invariant [where P = "\<lambda>ms. \<forall>m \<in> set ms. non_capturing_move b m"])
       (use assms(2) king_slide_non_capturing in blast)+
qed

lemma gather_non_capturing_moves_non_capturing:
  assumes "gather_non_capturing_moves player b [] = Some ms"
  shows "\<forall>m \<in> set ms. non_capturing_move b m"
  using assms unfolding gather_non_capturing_moves_def
proof (rule for_each_invariant [where P = "\<lambda>ms. \<forall>m \<in> set ms. non_capturing_move b m"])
  show "\<forall>m \<in> set []. non_capturing_move b m" by simp
next
  fix square r r'
  assume "\<forall>m \<in> set r. non_capturing_move b m"
    and "non_capture_step player (get_forward_directions player) b square r = Some r'"
  then show "\<forall>m \<in> set r'. non_capturing_move b m"
    using add_legal_non_capturing_moves_non_capturing [of _ player square b r r']
    by (auto simp: non_capture_step_def split: option.splits if_splits)
qed

lemma along_same_target:
  assumes "delta \<in> set DIAGONAL_DIRECTIONS" and "delta' \<in> set DIAGONAL_DIRECTIONS"
    and "1 \<le> k" and "1 \<le> k'" and "along source delta k = along source delta' k'"
  shows "delta = delta' \<and> k = k'"
  using assms
  by (auto simp: DIAGONAL_DIRECTIONS_def along_def index_add_def index_mul_def)

lemma getitem_after_pickup:
  assumes "getitem (setitem b source None) c = Some p"
  shows "getitem b c = Some p"
proof -
  let ?i = "nat (x_of source)" and ?j = "nat (y_of source)"
  let ?i' = "nat (x_of c)" and ?j' = "nat (y_of c)"
  from assms have read: "(list_2d b)[?i := (list_2d b ! ?i)[?j := None]] ! ?i' ! ?j' = Some p"
    by (simp add: getitem_def setitem_def)
  show ?thesis
  proof (cases "?i' = ?i \<and> ?i < length (list_2d b)")
    case False
    then have "(list_2d b)[?i := (list_2d b ! ?i)[?j := None]] ! ?i' = list_2d b ! ?i'"
      by (auto simp: list_update_beyond)
    with read show ?thesis by (simp add: getitem_def)
  next
    case True
    then have col: "(list_2d b ! ?i)[?j := None] ! ?j' = Some p"
      using read by simp
    have "list_2d b ! ?i ! ?j' = Some p"
    proof (cases "?j' = ?j \<and> ?j < length (list_2d b ! ?i)")
      case True
      with col show ?thesis by simp
    next
      case False
      then have "(list_2d b ! ?i)[?j := None] ! ?j' = list_2d b ! ?i ! ?j'"
        by (auto simp: list_update_beyond)
      with col show ?thesis by simp
    qed
    with True show ?thesis by (simp add: getitem_def)
  qed
qed

lemma capturing_not_non_capturing:
  assumes "capturing_move b player m" and "non_capturing_move b m"
  shows False
proof -
  from assms(2) obtain source target where vs: "visited_squares m = [source, target]"
    and "slides b source target"
    unfolding non_capturing_move_def by blast
  then obtain delta' k' where slide: "delta' \<in> set DIAGONAL_DIRECTIONS" "1 \<le> k'"
    "target = along source delta' k'"
    "\<forall>t. 1 \<le> t \<and> t \<le> k' \<longrightarrow> contains b (along source delta' t) \<and> getitem b (along source delta' t) = None"
    unfolding slides_def by blast
  from assms(1) vs have "jumps_over (setitem b source None) player source target"
    by (simp add: capturing_move_def)
  then obtain delta i k p where jump: "delta \<in> set DIAGONAL_DIRECTIONS" "1 \<le> i" "i < k"
    "target = along source delta k"
    "getitem (setitem b source None) (along source delta i) = Some p"
    unfolding jumps_over_def by blast
  from jump(2,3) have "1 \<le> k" by simp
  moreover have "along source delta k = along source delta' k'"
    using jump(4) slide(3) by simp
  ultimately have same: "delta = delta'" "k = k'"
    using along_same_target [OF jump(1) slide(1) _ slide(2)] by auto
  from getitem_after_pickup [OF jump(5)] have "getitem b (along source delta i) = Some p" .
  moreover from slide(4) jump(2,3) same have "getitem b (along source delta i) = None" by simp
  ultimately show False by simp
qed


lemma longest_moves:
  assumes "caps \<noteq> []"
  defines "longest \<equiv> filter (\<lambda>move. move_len move = Max (set (map move_len caps))) caps"
  shows "longest \<noteq> []"
    and "set longest \<subseteq> set caps"
    and "\<forall>m \<in> set longest. \<forall>c \<in> set caps. move_len c \<le> move_len m"
    and "\<forall>c \<in> set caps. (\<forall>c' \<in> set caps. move_len c' \<le> move_len c) \<longrightarrow> c \<in> set longest"
proof -
  let ?lens = "set (map move_len caps)"
  have fin: "finite ?lens" and ne: "?lens \<noteq> {}" using assms(1) by auto
  from Max_in [OF fin ne] obtain c where c: "c \<in> set caps" "move_len c = Max ?lens" by auto
  then have "c \<in> set longest" by (simp add: longest_def)
  then show "longest \<noteq> []" by auto
  show "set longest \<subseteq> set caps" by (auto simp: longest_def)
  show "\<forall>m \<in> set longest. \<forall>c \<in> set caps. move_len c \<le> move_len m"
  proof (intro ballI)
    fix m c' assume "m \<in> set longest" "c' \<in> set caps"
    then have "move_len m = Max ?lens" "move_len c' \<in> ?lens" by (auto simp: longest_def)
    with fin show "move_len c' \<le> move_len m" by simp
  qed
  show "\<forall>c \<in> set caps. (\<forall>c' \<in> set caps. move_len c' \<le> move_len c) \<longrightarrow> c \<in> set longest"
  proof (intro ballI impI)
    fix c' assume c': "c' \<in> set caps" and top: "\<forall>c'' \<in> set caps. move_len c'' \<le> move_len c'"
    have upper: "Max ?lens \<le> move_len c'" using top fin ne by auto
    have lower: "move_len c' \<le> Max ?lens" using c' fin by auto
    from lower upper have "move_len c' = Max ?lens" by (rule antisym)
    with c' show "c' \<in> set longest" by (simp add: longest_def)
  qed
qed

section \<open>The piece census\<close>

text \<open>
  \<open>count_pieces\<close> is the number of cells of the board that hold a given piece, counted in the
  columns of the board themselves; \<open>king_vs_king\<close> is the position with no men and exactly one
  king for each player.
\<close>

definition count_pieces :: "CheckersBoard \<Rightarrow> CheckersPlayer \<Rightarrow> CheckersPieceType \<Rightarrow> nat" where
  "count_pieces b player piece_type =
     count_list (concat (list_2d b)) (Some (CheckersPiece player piece_type))"

definition king_vs_king :: "CheckersBoard \<Rightarrow> bool" where
  "king_vs_king b \<longleftrightarrow>
     count_pieces b LIGHT MAN = 0 \<and> count_pieces b DARK MAN = 0 \<and>
     count_pieces b LIGHT KING = 1 \<and> count_pieces b DARK KING = 1"

text \<open>
  The iterator of the board visits every cell of every column once: the cells read at the
  squares of \<open>board_squares\<close>, in order, are the columns of the board one after the other. So
  the number of squares at which the iterator finds a piece is the number of cells that hold
  it. On a well-formed board the squares of the iterator are the squares within the bounds of
  the board, each once, and the count is the number of squares of the board that hold the piece.
\<close>

lemma column_cells:
  assumes "(i, column) \<in> set (enumerate 0 columns)"
  shows "map (\<lambda>j. columns ! i ! j) [0..<length column] = column"
proof -
  from assms have "column = columns ! i"
    by (auto simp: in_set_enumerate_eq)
  then show ?thesis by (simp add: map_nth)
qed

lemma board_squares_cells: "map (getitem b) (board_squares b) = concat (list_2d b)"
proof -
  have "map (getitem b) (board_squares b) =
          concat (map (\<lambda>(i, column). map (\<lambda>j. list_2d b ! i ! j) [0..<length column])
                      (enumerate 0 (list_2d b)))"
    by (simp add: board_squares_def map_concat getitem_def comp_def case_prod_unfold)
  also have "map (\<lambda>(i, column). map (\<lambda>j. list_2d b ! i ! j) [0..<length column])
                 (enumerate 0 (list_2d b)) = map snd (enumerate 0 (list_2d b))"
    by (rule map_cong) (auto simp: column_cells)
  also have "map snd (enumerate 0 (list_2d b)) = list_2d b"
    by simp
  finally show ?thesis .
qed

lemma count_list_map: "count_list (map f xs) v = length (filter (\<lambda>x. f x = v) xs)"
  by (induction xs) simp_all

lemma count_pieces_iterated:
  "count_pieces b player piece_type =
     length (filter (\<lambda>square. getitem b square = Some (CheckersPiece player piece_type)) (board_squares b))"
  by (simp add: count_pieces_def flip: board_squares_cells count_list_map)

lemma board_squares_product:
  assumes "board_wf b"
  shows "board_squares b =
           map (\<lambda>(i, j). Index2D (int i) (int j))
               (List.product [0..<nat (column_count b)] [0..<nat (row_count b)])"
proof -
  from assms have len: "length (list_2d b) = nat (column_count b)"
    and rows: "\<And>column. column \<in> set (list_2d b) \<Longrightarrow> length column = nat (row_count b)"
    by (auto simp: board_wf_def list_all_iff)
  have "map (\<lambda>(i, column). map (\<lambda>j. Index2D (int i) (int j)) [0..<length column])
            (enumerate 0 (list_2d b))
        = map (\<lambda>(i, column). map (\<lambda>j. Index2D (int i) (int j)) [0..<nat (row_count b)])
            (enumerate 0 (list_2d b))"
    by (rule map_cong) (auto simp: in_set_enumerate_eq rows)
  also have "\<dots> = map (\<lambda>i. map (\<lambda>j. Index2D (int i) (int j)) [0..<nat (row_count b)])
                     (map fst (enumerate 0 (list_2d b)))"
    by (simp only: map_map comp_def case_prod_unfold)
  also have "map fst (enumerate 0 (list_2d b)) = [0..<nat (column_count b)]"
    by (simp add: len)
  finally show ?thesis
    by (simp add: board_squares_def product_concat_map map_concat comp_def)
qed

lemma board_squares_distinct:
  assumes "board_wf b"
  shows "distinct (board_squares b)"
  unfolding board_squares_product [OF assms]
  by (auto simp: distinct_map distinct_product inj_on_def)

lemma board_squares_contains:
  assumes "board_wf b"
  shows "sq \<in> set (board_squares b) \<longleftrightarrow> contains b sq"
proof
  assume "sq \<in> set (board_squares b)"
  then show "contains b sq"
    unfolding board_squares_product [OF assms] by (auto simp: contains_def)
next
  assume c: "contains b sq"
  then have "(nat (x_of sq), nat (y_of sq)) \<in> set (List.product [0..<nat (column_count b)] [0..<nat (row_count b)])"
    by (auto simp: contains_def)
  moreover have "sq = (\<lambda>(i, j). Index2D (int i) (int j)) (nat (x_of sq), nat (y_of sq))"
    using c by (cases sq) (simp add: contains_def)
  ultimately show "sq \<in> set (board_squares b)"
    unfolding board_squares_product [OF assms] by (metis (no_types, lifting) image_eqI set_map)
qed

lemma count_pieces_squares:
  assumes "board_wf b"
  shows "count_pieces b player piece_type =
           card {sq. contains b sq \<and> getitem b sq = Some (CheckersPiece player piece_type)}"
proof -
  let ?P = "\<lambda>sq. getitem b sq = Some (CheckersPiece player piece_type)"
  have "count_pieces b player piece_type = length (filter ?P (board_squares b))"
    by (rule count_pieces_iterated)
  also have "\<dots> = card (set (filter ?P (board_squares b)))"
  proof -
    have "distinct (filter ?P (board_squares b))"
      using board_squares_distinct [OF assms] by simp
    then show ?thesis by (rule distinct_card [symmetric])
  qed
  also have "set (filter ?P (board_squares b)) = {sq. contains b sq \<and> ?P sq}"
    using board_squares_contains [OF assms] by auto
  finally show ?thesis .
qed

text \<open>The census loop of \<open>determine_result\<close> computes these counts.\<close>

lemma census_fold:
  "fold (census_step b) squares (lm, dm, lk, dk) =
     (lm + length (filter (\<lambda>square. getitem b square = Some (CheckersPiece LIGHT MAN)) squares),
      dm + length (filter (\<lambda>square. getitem b square = Some (CheckersPiece DARK MAN)) squares),
      lk + length (filter (\<lambda>square. getitem b square = Some (CheckersPiece LIGHT KING)) squares),
      dk + length (filter (\<lambda>square. getitem b square = Some (CheckersPiece DARK KING)) squares))"
proof (induction squares arbitrary: lm dm lk dk)
  case Nil
  then show ?case by simp
next
  case (Cons square squares)
  have unfold: "fold (census_step b) (square # squares) (lm, dm, lk, dk)
                = fold (census_step b) squares (census_step b square (lm, dm, lk, dk))"
    by simp
  show ?case
  proof (cases "getitem b square")
    case None
    then have "census_step b square (lm, dm, lk, dk) = (lm, dm, lk, dk)"
      by (simp add: census_step_def)
    with None show ?thesis
      unfolding unfold by (simp add: Cons.IH)
  next
    case (Some piece)
    obtain ow ty where piece: "piece = CheckersPiece ow ty" by (cases piece)
    have "census_step b square (lm, dm, lk, dk) =
            (if ow = LIGHT \<and> ty = MAN then lm + 1 else lm,
             if ow = DARK \<and> ty = MAN then dm + 1 else dm,
             if ow = LIGHT \<and> ty = KING then lk + 1 else lk,
             if ow = DARK \<and> ty = KING then dk + 1 else dk)"
      using Some piece by (cases ow; cases ty) (simp_all add: census_step_def)
    with Some piece show ?thesis
      unfolding unfold by (cases ow; cases ty) (simp_all add: Cons.IH)
  qed
qed

lemma census_counts:
  "fold (census_step b) (board_squares b) (0, 0, 0, 0) =
     (count_pieces b LIGHT MAN, count_pieces b DARK MAN, count_pieces b LIGHT KING, count_pieces b DARK KING)"
  by (simp add: census_fold count_pieces_iterated)

section \<open>Example positions\<close>

text \<open>
  A board of five columns and five rows with dark men on \<open>(1, 1)\<close> and \<open>(3, 3)\<close>:
  \<open>chain_board\<close> has the square \<open>(0, 0)\<close> empty (the moving piece taken off), and
  \<open>chain_position\<close> has a light man there, which can capture both dark men in one move.
\<close>

definition empty_column :: "CheckersPiece option list" where
  "empty_column = [None, None, None, None, None]"

definition chain_board :: CheckersBoard where
  "chain_board = \<lparr>row_count = 5, column_count = 5, list_2d =
     [empty_column,
      [None, Some (CheckersPiece DARK MAN), None, None, None],
      empty_column,
      [None, None, None, Some (CheckersPiece DARK MAN), None],
      empty_column]\<rparr>"

definition chain_position :: CheckersBoard where
  "chain_position = \<lparr>row_count = 5, column_count = 5, list_2d =
     [[Some (CheckersPiece LIGHT MAN), None, None, None, None],
      [None, Some (CheckersPiece DARK MAN), None, None, None],
      empty_column,
      [None, None, None, Some (CheckersPiece DARK MAN), None],
      empty_column]\<rparr>"

text \<open>
  Two boards of three columns and three rows: one with a light king and a dark king in opposite
  corners, one without pieces.
\<close>

definition kings_board :: CheckersBoard where
  "kings_board = \<lparr>row_count = 3, column_count = 3, list_2d =
     [[Some (CheckersPiece LIGHT KING), None, None],
      [None, None, None],
      [None, None, Some (CheckersPiece DARK KING)]]\<rparr>"

definition empty_board :: CheckersBoard where
  "empty_board = \<lparr>row_count = 3, column_count = 3, list_2d =
     [[None, None, None], [None, None, None], [None, None, None]]\<rparr>"

text \<open>
  The board of the game itself, ten columns and ten rows, with the two kings in opposite corners.
\<close>

definition empty_column_10 :: "CheckersPiece option list" where
  "empty_column_10 = [None, None, None, None, None, None, None, None, None, None]"

definition wide_kings_board :: CheckersBoard where
  "wide_kings_board = \<lparr>row_count = 10, column_count = 10, list_2d =
     [[Some (CheckersPiece LIGHT KING), None, None, None, None, None, None, None, None, None],
      empty_column_10, empty_column_10, empty_column_10, empty_column_10,
      empty_column_10, empty_column_10, empty_column_10, empty_column_10,
      [None, None, None, None, None, None, None, None, None, Some (CheckersPiece DARK KING)]]\<rparr>"

lemma kings_board_census: "king_vs_king kings_board"
  by (simp add: king_vs_king_def count_pieces_def kings_board_def)

lemma wide_kings_board_census: "king_vs_king wide_kings_board"
  by (simp add: king_vs_king_def count_pieces_def wide_kings_board_def empty_column_10_def)

lemma wide_kings_board_wf: "board_wf wide_kings_board"
  by (simp add: board_wf_def wide_kings_board_def empty_column_10_def)

lemma chain_position_census: "\<not> king_vs_king chain_position"
  by (simp add: king_vs_king_def count_pieces_def chain_position_def empty_column_def)

text \<open>A state on \<open>chain_position\<close> with the light player to move and an empty cache.\<close>

definition chain_state :: CheckersState where
  "chain_state = \<lparr>st_board = chain_position, st_current_player = LIGHT, st_ply_count = 6,
                   st_cached_legal_moves = None\<rparr>"

lemma chain_state_legal_moves:
  "legal_moves chain_state =
     Some ([CheckersMove [Index2D 0 0, Index2D 2 2, Index2D 4 4]],
           chain_state\<lparr>st_cached_legal_moves := Some [CheckersMove [Index2D 0 0, Index2D 2 2, Index2D 4 4]]\<rparr>)"
  by code_simp

text \<open>
  An environment in which the search is never cancelled, and three more states: the empty board
  (no legal move), the two kings (one legal move for the light player) and a single light man
  (two legal moves).
\<close>

definition quiet_environment :: environment where
  "quiet_environment = \<lparr>cancel_schedule = (\<lambda>k. False), polls = 0, random_source = (\<lambda>k. 0), draws = 0\<rparr>"

definition empty_state :: CheckersState where
  "empty_state = \<lparr>st_board = empty_board, st_current_player = LIGHT, st_ply_count = 0,
                   st_cached_legal_moves = None\<rparr>"

definition kings_state :: CheckersState where
  "kings_state = \<lparr>st_board = kings_board, st_current_player = LIGHT, st_ply_count = 40,
                   st_cached_legal_moves = None\<rparr>"

lemma empty_state_legal_moves:
  "legal_moves empty_state = Some ([], empty_state\<lparr>st_cached_legal_moves := Some []\<rparr>)"
  by code_simp

lemma kings_state_legal_moves:
  "legal_moves kings_state =
     Some ([CheckersMove [Index2D 0 0, Index2D 1 1]],
           kings_state\<lparr>st_cached_legal_moves := Some [CheckersMove [Index2D 0 0, Index2D 1 1]]\<rparr>)"
  by code_simp

definition man_board :: CheckersBoard where
  "man_board = \<lparr>row_count = 3, column_count = 3, list_2d =
     [[None, None, None],
      [Some (CheckersPiece LIGHT MAN), None, None],
      [None, None, None]]\<rparr>"

definition man_state :: CheckersState where
  "man_state = \<lparr>st_board = man_board, st_current_player = LIGHT, st_ply_count = 0,
                 st_cached_legal_moves = None\<rparr>"

lemma man_state_legal_moves:
  "legal_moves man_state =
     Some ([CheckersMove [Index2D 1 0, Index2D 0 1], CheckersMove [Index2D 1 0, Index2D 2 1]],
           man_state\<lparr>st_cached_legal_moves :=
             Some [CheckersMove [Index2D 1 0, Index2D 0 1], CheckersMove [Index2D 1 0, Index2D 2 1]]\<rparr>)"
  by code_simp

text \<open>
  A position in which the light man on \<open>(2, 0)\<close> can capture one dark man to the left or two
  dark men to the right, while the light man on \<open>(0, 3)\<close> can only step forward.
\<close>

definition fork_position :: CheckersBoard where
  "fork_position = \<lparr>row_count = 5, column_count = 5, list_2d =
     [[None, None, None, Some (CheckersPiece LIGHT MAN), None],
      [None, Some (CheckersPiece DARK MAN), None, None, None],
      [Some (CheckersPiece LIGHT MAN), None, None, None, None],
      [None, Some (CheckersPiece DARK MAN), None, Some (CheckersPiece DARK MAN), None],
      empty_column]\<rparr>"

lemma fork_position_captures:
  "gather_capturing_moves LIGHT fork_position =
     Some (fork_position,
           [CheckersMove [Index2D 2 0, Index2D 0 2],
            CheckersMove [Index2D 2 0, Index2D 4 2, Index2D 2 4]])"
  by code_simp

lemma fork_position_legal_moves:
  "determine_legal_moves LIGHT fork_position =
     Some ([CheckersMove [Index2D 2 0, Index2D 4 2, Index2D 2 4]], fork_position)"
  by code_simp

lemma fork_position_non_capturing:
  "gather_non_capturing_moves LIGHT fork_position [] = Some [CheckersMove [Index2D 0 3, Index2D 1 4]]"
  by code_simp


section \<open>Properties\<close>

subsection \<open>The board is left as it was\<close>

text \<open>
  Claim C9. For every player and every board, \<open>determine_legal_moves\<close> returns and leaves the
  board as it was, cell for cell: each piece that the first loop takes off its square is put
  back on it after its capturing moves have been gathered, and the capture search itself never
  writes to the board.
\<close>

theorem determine_legal_moves_preserves_board:
  "\<exists>moves. determine_legal_moves current_player b = Some (moves, b)"
  by (rule determine_legal_moves_total)

theorem determine_legal_moves_preserves_board_witness:
  "determine_legal_moves LIGHT chain_position =
     Some ([CheckersMove [Index2D 0 0, Index2D 2 2, Index2D 4 4]], chain_position)"
proof -
  have "fst (the (determine_legal_moves LIGHT chain_position)) =
          [CheckersMove [Index2D 0 0, Index2D 2 2, Index2D 4 4]]"
    by code_simp
  with determine_legal_moves_preserves_board [of LIGHT chain_position]
  show ?thesis by auto
qed

subsection \<open>The capture search terminates\<close>

text \<open>
  Claim C10. For every piece, board, list of moves and lists of visited and captured squares
  (the visited squares non-empty, as the function requires), the recursive capture search
  returns. Every jump it follows captures a square that is on the board, holds a piece of the
  other player and is not among the squares captured so far, so each recursive call has one
  capturable square less; and every move it adds is longer than the path it started with by at
  most the number of capturable squares, which is at most the number of the opponent's pieces
  on the board.
\<close>

theorem add_legal_capturing_moves_terminates:
  assumes "visited \<noteq> []"
  shows "\<exists>jumps new.
           add_legal_jumps piece (last visited) captured b [] = Some jumps \<and>
           (\<forall>jump \<in> set jumps.
              contains b (captured_square jump) \<and>
              captured_square jump \<notin> set captured \<and>
              (\<exists>p. getitem b (captured_square jump) = Some p \<and> owner p \<noteq> owner piece) \<and>
              capturable_count piece (captured @ [captured_square jump]) b
                < capturable_count piece captured b) \<and>
           add_legal_capturing_moves piece visited captured b moves = Some (moves @ new) \<and>
           (\<forall>m \<in> set new. move_len m \<le> length visited + capturable_count piece captured b) \<and>
           capturable_count piece captured b \<le> capturable_count piece [] b"
proof -
  from add_legal_jumps_total obtain jumps where
    jumps: "add_legal_jumps piece (last visited) captured b [] = Some jumps" by blast
  have cap: "\<forall>jump \<in> set jumps. capturable piece captured b (captured_square jump)"
    using add_legal_jumps_capturable [OF jumps] by simp
  have step: "\<forall>jump \<in> set jumps.
              contains b (captured_square jump) \<and>
              captured_square jump \<notin> set captured \<and>
              (\<exists>p. getitem b (captured_square jump) = Some p \<and> owner p \<noteq> owner piece) \<and>
              capturable_count piece (captured @ [captured_square jump]) b
                < capturable_count piece captured b"
  proof
    fix jump assume "jump \<in> set jumps"
    with cap have c: "capturable piece captured b (captured_square jump)" by blast
    from c have "contains b (captured_square jump)" "captured_square jump \<notin> set captured"
      "\<exists>p. getitem b (captured_square jump) = Some p \<and> owner p \<noteq> owner piece"
      by (auto simp: capturable_def split: option.splits)
    with capturable_count_decreases [OF c]
    show "contains b (captured_square jump) \<and>
              captured_square jump \<notin> set captured \<and>
              (\<exists>p. getitem b (captured_square jump) = Some p \<and> owner p \<noteq> owner piece) \<and>
              capturable_count piece (captured @ [captured_square jump]) b
                < capturable_count piece captured b"
      by blast
  qed
  from add_legal_capturing_moves_total obtain ms where
    ms: "add_legal_capturing_moves piece visited captured b moves = Some ms" by blast
  from add_legal_capturing_moves_shape [OF ms] obtain new where
    "ms = moves @ new"
    "\<forall>m \<in> set new. move_len m \<le> length visited + capturable_count piece captured b"
    by blast
  with jumps step ms capturable_count_le show ?thesis by blast
qed

theorem add_legal_capturing_moves_terminates_witness:
  "[Index2D 0 0] \<noteq> [] \<and>
   add_legal_capturing_moves (CheckersPiece LIGHT MAN) [Index2D 0 0] [] chain_board [] =
     Some [CheckersMove [Index2D 0 0, Index2D 2 2, Index2D 4 4]] \<and>
   capturable_count (CheckersPiece LIGHT MAN) [] chain_board = 2"
proof -
  have run: "add_legal_capturing_moves (CheckersPiece LIGHT MAN) [Index2D 0 0] [] chain_board [] =
     Some [CheckersMove [Index2D 0 0, Index2D 2 2, Index2D 4 4]]"
    by code_simp
  have count: "capturable_count (CheckersPiece LIGHT MAN) [] chain_board = 2"
    by code_simp
  have nonempty: "[Index2D 0 0] \<noteq> []" by simp
  from add_legal_capturing_moves_terminates
         [OF nonempty, of "CheckersPiece LIGHT MAN" "[]" chain_board "[]"] run count
  show ?thesis by simp
qed

subsection \<open>A player without legal moves loses\<close>

text \<open>
  Claim C2, amended. For every board and current player, if the legal move count is zero and
  the ply count is positive, \<open>determine_result\<close> returns a result whose winner is the other
  player and whose total ply count is the ply count passed. If the ply count is zero or
  negative, the constructor of the result raises its validation error instead, and no result is
  returned.
\<close>

theorem determine_result_no_legal_moves:
  "(0 < ply_count \<longrightarrow>
      determine_result b current_player ply_count 0 =
        Inr (Some \<lparr>winner = Some (next_player current_player), total_ply_count = ply_count\<rparr>)) \<and>
   (ply_count \<le> 0 \<longrightarrow> determine_result b current_player ply_count 0 = Inl NonPositivePlyCount)"
  by (cases current_player) (simp_all add: determine_result_def make_result_def)

theorem determine_result_no_legal_moves_witness:
  "(0::int) < 7 \<and>
   determine_result kings_board LIGHT 7 0 = Inr (Some \<lparr>winner = Some DARK, total_ply_count = 7\<rparr>) \<and>
   determine_result kings_board DARK (- 1) 0 = Inl NonPositivePlyCount"
  using determine_result_no_legal_moves [of 7 kings_board LIGHT]
    determine_result_no_legal_moves [of "- 1" kings_board DARK]
  by simp

text \<open>
  The claim as first stated includes a ply count of zero. On the empty board of a freshly
  constructed state (no legal moves, ply count zero) \<open>determine_result\<close> raises.
\<close>

theorem determine_result_zero_ply_counterexample:
  "determine_result empty_board LIGHT 0 0 = Inl NonPositivePlyCount"
  by (simp add: determine_result_def make_result_def)

subsection \<open>King against king is a draw\<close>

text \<open>
  Claim C7. For every board, current player and positive ply count, if the legal move count is
  positive, \<open>determine_result\<close> returns a draw (no winner) with the ply count passed when
  neither player has a man and each player has exactly one king, whoever is to move, and it
  returns no result for every other census of the pieces. The census is that of the cells of
  the board (\<open>count_pieces\<close>), not of the squares that the loop happens to visit.
\<close>

theorem determine_result_king_vs_king:
  assumes "0 < ply_count" and "0 < legal_move_count"
  shows "determine_result b current_player ply_count legal_move_count =
           Inr (if king_vs_king b then Some \<lparr>winner = None, total_ply_count = ply_count\<rparr> else None)"
  using assms
  by (simp add: determine_result_def census_counts make_result_def king_vs_king_def)


theorem determine_result_king_vs_king_witness:
  "(0::int) < 41 \<and> (0::int) < 3 \<and>
   determine_result kings_board DARK 41 3 = Inr (Some \<lparr>winner = None, total_ply_count = 41\<rparr>) \<and>
   determine_result wide_kings_board LIGHT 41 3 = Inr (Some \<lparr>winner = None, total_ply_count = 41\<rparr>) \<and>
   determine_result chain_position LIGHT 41 3 = Inr None"
  using determine_result_king_vs_king [of 41 3 kings_board DARK]
    determine_result_king_vs_king [of 41 3 wide_kings_board LIGHT]
    determine_result_king_vs_king [of 41 3 chain_position LIGHT]
    kings_board_census wide_kings_board_census chain_position_census
  by simp

subsection \<open>Illegal moves are rejected before the state changes\<close>

text \<open>
  Claim C3. For every state and move, reading the legal moves of the state returns, and
  \<open>CheckersState.apply\<close> raises the illegal-move error exactly when the move is not among them.
  When it raises that error, the state it leaves behind is the state after reading the legal
  moves, whose board, current player and ply count are those of the state before the call
  (only the cache of legal moves has been filled).
\<close>

theorem state_apply_illegal_move:
  "\<exists>moves s1. legal_moves s = Some (moves, s1) \<and>
     st_board s1 = st_board s \<and> st_current_player s1 = st_current_player s \<and>
     st_ply_count s1 = st_ply_count s \<and>
     (move \<notin> set moves \<longrightarrow> state_apply s move = Some (Inl (IllegalMove, s1))) \<and>
     (move \<in> set moves \<longrightarrow> (\<forall>s2. state_apply s move \<noteq> Some (Inl (IllegalMove, s2))))"
proof -
  from legal_moves_total obtain moves s1 where
    lm: "legal_moves s = Some (moves, s1)"
    and same: "st_board s1 = st_board s" "st_current_player s1 = st_current_player s"
      "st_ply_count s1 = st_ply_count s"
    by blast
  have illegal: "state_apply s move = Some (Inl (IllegalMove, s1))" if "move \<notin> set moves"
    using that lm by (simp add: state_apply_def)
  have legal: "state_apply s move \<noteq> Some (Inl (IllegalMove, s2))" if "move \<in> set moves" for s2
    using that lm
    by (auto simp: state_apply_def split: option.splits sum.splits dest: apply_move_error)
  from lm same illegal legal show ?thesis by blast
qed

theorem state_apply_illegal_move_witness:
  "legal_moves chain_state =
     Some ([CheckersMove [Index2D 0 0, Index2D 2 2, Index2D 4 4]],
           chain_state\<lparr>st_cached_legal_moves := Some [CheckersMove [Index2D 0 0, Index2D 2 2, Index2D 4 4]]\<rparr>) \<and>
   CheckersMove [Index2D 0 0, Index2D 2 2] \<notin> set [CheckersMove [Index2D 0 0, Index2D 2 2, Index2D 4 4]] \<and>
   state_apply chain_state (CheckersMove [Index2D 0 0, Index2D 2 2]) =
     Some (Inl (IllegalMove,
       chain_state\<lparr>st_cached_legal_moves := Some [CheckersMove [Index2D 0 0, Index2D 2 2, Index2D 4 4]]\<rparr>)) \<and>
   CheckersMove [Index2D 0 0, Index2D 2 2, Index2D 4 4] \<in> set [CheckersMove [Index2D 0 0, Index2D 2 2, Index2D 4 4]] \<and>
   state_apply chain_state (CheckersMove [Index2D 0 0, Index2D 2 2, Index2D 4 4]) \<noteq>
     Some (Inl (IllegalMove,
       chain_state\<lparr>st_cached_legal_moves := Some [CheckersMove [Index2D 0 0, Index2D 2 2, Index2D 4 4]]\<rparr>))"
  using state_apply_illegal_move [of chain_state "CheckersMove [Index2D 0 0, Index2D 2 2]"]
    state_apply_illegal_move [of chain_state "CheckersMove [Index2D 0 0, Index2D 2 2, Index2D 4 4]"]
    chain_state_legal_moves
  by auto

subsection \<open>A single legal move is returned without a search\<close>

text \<open>
  Claim C8. For every state, playout budget and environment: if the state has exactly one legal
  move, \<open>pure_monte_carlo_game_search\<close> returns that move, and if it has no legal move, it
  returns no move. In both cases the environment comes back unchanged, so the cancellation
  event was not polled and no random choice was made: no playout was run, and the result
  depends neither on the budget nor on the cancellation event.
\<close>

theorem search_returns_single_move:
  "\<exists>moves state1. legal_moves state = Some (moves, state1) \<and>
     (length moves = 1 \<longrightarrow>
        pure_monte_carlo_game_search state playout_count_per_move env = Some (Inr (Some (moves ! 0)), env)) \<and>
     (moves = [] \<longrightarrow>
        pure_monte_carlo_game_search state playout_count_per_move env = Some (Inr None, env))"
proof -
  from legal_moves_total obtain moves state1 where lm: "legal_moves state = Some (moves, state1)"
    by blast
  have "pure_monte_carlo_game_search state playout_count_per_move env = Some (Inr (Some (moves ! 0)), env)"
    if "length moves = 1"
  proof -
    from that obtain move where "moves = [move]" by (cases moves) auto
    with lm search_single_move show ?thesis by simp
  qed
  moreover have "pure_monte_carlo_game_search state playout_count_per_move env = Some (Inr None, env)"
    if "moves = []"
    using that lm search_without_moves by simp
  ultimately show ?thesis using lm by blast
qed

theorem search_returns_single_move_witness:
  "pure_monte_carlo_game_search kings_state 15 quiet_environment =
     Some (Inr (Some (CheckersMove [Index2D 0 0, Index2D 1 1])), quiet_environment) \<and>
   pure_monte_carlo_game_search empty_state 15 quiet_environment = Some (Inr None, quiet_environment)"
  using search_returns_single_move [of kings_state 15 quiet_environment]
    search_returns_single_move [of empty_state 15 quiet_environment]
    kings_state_legal_moves empty_state_legal_moves
  by auto

subsection \<open>A playout budget that is not positive\<close>

text \<open>
  Claim C4, amended. For every state with at least two legal moves and every environment,
  \<open>pure_monte_carlo_game_search\<close> with a playout budget \<open>N \<le> 0\<close> raises the validation error
  of \<open>determine_score_for_move\<close>, before the cancellation event is polled. With exactly one
  legal move it returns that move, and with no legal move it returns no move, without looking at
  the budget.
\<close>

theorem search_rejects_invalid_count:
  assumes "playout_count_per_move \<le> 0"
  shows "\<exists>moves state1. legal_moves state = Some (moves, state1) \<and>
     (2 \<le> length moves \<longrightarrow>
        pure_monte_carlo_game_search state playout_count_per_move env = Some (Inl NonPositivePlayoutCount, env)) \<and>
     (length moves = 1 \<longrightarrow>
        pure_monte_carlo_game_search state playout_count_per_move env = Some (Inr (Some (moves ! 0)), env)) \<and>
     (moves = [] \<longrightarrow>
        pure_monte_carlo_game_search state playout_count_per_move env = Some (Inr None, env))"
proof -
  from legal_moves_total obtain moves state1 where lm: "legal_moves state = Some (moves, state1)"
    by blast
  have "pure_monte_carlo_game_search state playout_count_per_move env = Some (Inl NonPositivePlayoutCount, env)"
    if "2 \<le> length moves"
  proof -
    from that have "moves \<noteq> []" "length moves \<noteq> 1" by auto
    with lm score_loop_invalid_count [OF assms, of moves state1 "[]" env]
    show ?thesis by (simp add: pure_monte_carlo_game_search_def)
  qed
  moreover have "pure_monte_carlo_game_search state playout_count_per_move env = Some (Inr (Some (moves ! 0)), env)"
    if "length moves = 1"
  proof -
    from that obtain move where "moves = [move]" by (cases moves) auto
    with lm search_single_move show ?thesis by simp
  qed
  moreover have "pure_monte_carlo_game_search state playout_count_per_move env = Some (Inr None, env)"
    if "moves = []"
    using that lm search_without_moves by simp
  ultimately show ?thesis using lm by blast
qed


theorem search_rejects_invalid_count_witness:
  "(0::int) \<le> 0 \<and>
   pure_monte_carlo_game_search man_state 0 quiet_environment =
     Some (Inl NonPositivePlayoutCount, quiet_environment)"
  using search_rejects_invalid_count [of 0 man_state quiet_environment] man_state_legal_moves
  by auto

text \<open>
  The claim as first stated covers states with no legal move or exactly one. On the empty board
  and on the board with the two kings a budget of zero raises nothing.
\<close>

theorem search_invalid_count_counterexample:
  "pure_monte_carlo_game_search empty_state 0 quiet_environment = Some (Inr None, quiet_environment) \<and>
   pure_monte_carlo_game_search kings_state 0 quiet_environment =
     Some (Inr (Some (CheckersMove [Index2D 0 0, Index2D 1 1])), quiet_environment)"
  using search_without_moves [OF empty_state_legal_moves] search_single_move [OF kings_state_legal_moves]
  by simp

subsection \<open>The scores of the outcomes\<close>

text \<open>
  Claim C6. With the game duration score \<open>min (0.001 * total_ply_count) 0.2\<close>,
  \<open>determine_score\<close> gives \<open>0.5\<close> to an undecided playout, \<open>0.5\<close> plus the duration score to
  a draw, \<open>1\<close> minus the duration score to a win of the player and \<open>0\<close> plus the duration score
  to a loss. For positive ply counts every win scores more than every draw, and every draw
  more than every loss.
\<close>

theorem determine_score_cases:
  "determine_score None player = 0.5 \<and>
   determine_score (Some \<lparr>winner = None, total_ply_count = n\<rparr>) player
     = 0.5 + min (0.001 * of_int n) 0.2 \<and>
   determine_score (Some \<lparr>winner = Some player, total_ply_count = n\<rparr>) player
     = 1 - min (0.001 * of_int n) 0.2 \<and>
   determine_score (Some \<lparr>winner = Some (next_player player), total_ply_count = n\<rparr>) player
     = 0 + min (0.001 * of_int n) 0.2 \<and>
   (0 < w \<and> 0 < d \<and> 0 < l \<longrightarrow>
      win_score player w > draw_score player d \<and> draw_score player d > loss_score player l)"
  by (auto simp: determine_score_def next_player_neq win_score_eq draw_score_eq loss_score_eq min_def)

theorem determine_score_cases_witness:
  "(0::int) < 1 \<and> (0::int) < 500 \<and> (0::int) < 150 \<and>
   win_score LIGHT 500 > draw_score LIGHT 150 \<and> draw_score LIGHT 150 > loss_score LIGHT 1 \<and>
   win_score LIGHT 500 = 0.8 \<and> draw_score LIGHT 150 = 0.65 \<and> loss_score LIGHT 1 = 0.001"
  using determine_score_cases [of LIGHT 0 500 150 1]
  by (simp add: win_score_eq draw_score_eq loss_score_eq)

text \<open>
  Claim C5, amended. For two results of the same kind with positive ply counts \<open>n1 < n2\<close>, the
  win score for \<open>n1\<close> is at least the win score for \<open>n2\<close> and the loss score for \<open>n1\<close> is at
  most the loss score for \<open>n2\<close>; both inequalities are strict when \<open>n1 < 200\<close>, that is, when
  the duration score of the shorter game is below the cap.
\<close>

theorem determine_score_monotone:
  assumes "0 < n1" and "n1 < n2"
  shows "win_score player n1 \<ge> win_score player n2 \<and>
         loss_score player n1 \<le> loss_score player n2 \<and>
         (n1 < 200 \<longrightarrow> win_score player n1 > win_score player n2 \<and>
                        loss_score player n1 < loss_score player n2)"
  using assms by (auto simp: win_score_eq loss_score_eq min_def)

theorem determine_score_monotone_witness:
  "(0::int) < 10 \<and> (10::int) < 20 \<and> (10::int) < 200 \<and>
   win_score DARK 10 > win_score DARK 20 \<and> loss_score DARK 10 < loss_score DARK 20"
  using determine_score_monotone [of 10 20 DARK]
  by simp

text \<open>
  The claim as first stated asks for strict inequalities for every pair of positive ply counts.
  At 300 and 400 plies the duration score is capped at \<open>0.2\<close> for both, and the scores are
  equal.
\<close>

theorem determine_score_capped_counterexample:
  "(0::int) < 300 \<and> (300::int) < 400 \<and>
   win_score LIGHT 300 = win_score LIGHT 400 \<and> loss_score LIGHT 300 = loss_score LIGHT 400"
  by (simp add: win_score_eq loss_score_eq)

subsection \<open>Captures are mandatory, and only the longest\<close>

text \<open>
  Claim C1. For every player and board, if the first phase of \<open>determine_legal_moves\<close> gathers
  at least one capturing move, then the function returns a non-empty list that consists of
  gathered capturing moves only, each of them a capturing move of the player on the board;
  every returned move is at least as long as every gathered capturing move, and every gathered
  capturing move of that maximum length is returned; no returned move is a non-capturing move,
  and none is among the moves that the second phase would gather on the board.
\<close>

theorem determine_legal_moves_mandatory_capture:
  assumes "gather_capturing_moves current_player b = Some (b1, caps)" and "caps \<noteq> []"
  shows "\<exists>moves. determine_legal_moves current_player b = Some (moves, b) \<and>
           moves \<noteq> [] \<and>
           set moves \<subseteq> set caps \<and>
           (\<forall>m \<in> set moves. capturing_move b current_player m) \<and>
           (\<forall>m \<in> set moves. \<forall>c \<in> set caps. move_len c \<le> move_len m) \<and>
           (\<forall>c \<in> set caps. (\<forall>c' \<in> set caps. move_len c' \<le> move_len c) \<longrightarrow> c \<in> set moves) \<and>
           (\<forall>m \<in> set moves. \<not> non_capturing_move b m) \<and>
           (\<forall>others. gather_non_capturing_moves current_player b [] = Some others \<longrightarrow>
              set moves \<inter> set others = {})"
proof -
  let ?moves = "filter (\<lambda>move. move_len move = Max (set (map move_len caps))) caps"
  from assms(1) gather_capturing_moves_board have b1: "b1 = b" by blast
  with assms have run: "determine_legal_moves current_player b = Some (?moves, b)"
    by (simp add: determine_legal_moves_def Let_def)
  have caps: "\<forall>m \<in> set caps. capturing_move b current_player m"
    using gather_capturing_moves_capturing [OF assms(1)] .
  note longest = longest_moves [OF assms(2)]
  have capturing: "\<forall>m \<in> set ?moves. capturing_move b current_player m"
    using caps longest(2) by blast
  then have not_slide: "\<forall>m \<in> set ?moves. \<not> non_capturing_move b m"
    using capturing_not_non_capturing by blast
  have disjoint: "set ?moves \<inter> set others = {}"
    if "gather_non_capturing_moves current_player b [] = Some others" for others
    using gather_non_capturing_moves_non_capturing [OF that] not_slide by blast
  from run longest capturing not_slide disjoint show ?thesis by blast
qed

theorem determine_legal_moves_mandatory_capture_witness:
  "gather_capturing_moves LIGHT fork_position =
     Some (fork_position,
           [CheckersMove [Index2D 2 0, Index2D 0 2],
            CheckersMove [Index2D 2 0, Index2D 4 2, Index2D 2 4]]) \<and>
   [CheckersMove [Index2D 2 0, Index2D 0 2],
    CheckersMove [Index2D 2 0, Index2D 4 2, Index2D 2 4]] \<noteq> [] \<and>
   determine_legal_moves LIGHT fork_position =
     Some ([CheckersMove [Index2D 2 0, Index2D 4 2, Index2D 2 4]], fork_position) \<and>
   capturing_move fork_position LIGHT (CheckersMove [Index2D 2 0, Index2D 4 2, Index2D 2 4]) \<and>
   \<not> non_capturing_move fork_position (CheckersMove [Index2D 2 0, Index2D 4 2, Index2D 2 4]) \<and>
   gather_non_capturing_moves LIGHT fork_position [] = Some [CheckersMove [Index2D 0 3, Index2D 1 4]]"
  using determine_legal_moves_mandatory_capture [OF fork_position_captures]
    fork_position_captures fork_position_legal_moves fork_position_non_capturing
  by auto

end
